theory Spec2Isabelle
  imports Main
begin

section \<open>Values, errors and the browser's storage\<close>

text \<open>
  The program is one TypeScript module, \<^verbatim>\<open>src/index.tsx\<close>: three data-access hooks
  (\<^verbatim>\<open>usePosts\<close>, \<^verbatim>\<open>useAddPost\<close>, \<^verbatim>\<open>usePost\<close>) over \<^verbatim>\<open>localStorage\<close> and two
  views. The hooks exchange JavaScript values with \<^verbatim>\<open>JSON.parse\<close> and
  \<^verbatim>\<open>JSON.stringify\<close>; the type annotation \<^verbatim>\<open>as Post[]\<close> is erased at run time, so the
  model works on the values themselves.

  A JavaScript string is a sequence of 16-bit code units. A code unit is a natural number
  (below 65536 in every string of JavaScript; no function below makes a larger one from
  smaller ones). \<open>cu\<close> is the code unit of a character of the source text and \<open>ascii\<close>
  the string of a literal.
\<close>

type_synonym code_unit = nat

type_synonym jstring = "code_unit list"

definition cu :: "char \<Rightarrow> code_unit" where
  "cu c = of_char c"

definition ascii :: "string \<Rightarrow> jstring" where
  "ascii s = map cu s"

text \<open>
  A run-time value is a \<open>json\<close>; \<^verbatim>\<open>undefined\<close> is \<open>None\<close> of an option. A number
  \<open>JNum m n\<close> denotes the decimal \<open>m / 10 ^ n\<close>, kept in lowest form (\<open>n = 0\<close>, or \<open>m\<close>
  not a multiple of ten), so that equal numbers are equal terms; an integer \<open>i\<close> is
  \<open>JNum i 0\<close>. JavaScript rounds every number to binary64; the model keeps the decimal
  exactly. The two agree on the numbers that binary64 holds exactly, the safe integers
  (of magnitude up to \<open>2 ^ 53 - 1\<close>) among them; a statement about the numbers of a text
  that the program did not write itself is made for safe integers.
\<close>

datatype json =
    JNull
  | JBool bool
  | JNum int nat
  | JStr jstring
  | JArr "json list"
  | JObj "(jstring \<times> json) list"

definition safe_integer :: "int \<Rightarrow> bool" where
  "safe_integer i = (\<bar>i\<bar> \<le> 2 ^ 53 - 1)"

text \<open>
  What can be thrown. \<open>SyntaxError t\<close> is the \<^verbatim>\<open>SyntaxError\<close> that \<^verbatim>\<open>JSON.parse\<close>
  throws on the text \<open>t\<close>, \<open>TypeError\<close> the one of a method call or property read on a
  value that has none, \<open>Error m\<close> is \<^verbatim>\<open>new Error(m)\<close>, and \<open>UndefinedData k\<close> is the
  error with which the query library fails the query of key \<open>k\<close> whose query function
  gave it \<^verbatim>\<open>undefined\<close>.

  The message of \<open>Error m\<close> is \<open>m\<close>. The message of any other error is worded by what
  throws it, the JavaScript engine or the library (ECMA-262 leaves the wording to the
  implementation): \<open>message\<close> takes that wording as a parameter.
\<close>

datatype error = SyntaxError jstring | TypeError | Error jstring | UndefinedData "json list"


text \<open>\<^verbatim>\<open>type Post = { id: number; title: string; body: string }\<close>, with integer ids.\<close>

record post =
  post_id :: int
  title :: jstring
  body :: jstring

text \<open>The JavaScript object that a \<^verbatim>\<open>Post\<close> is, with its properties in source order.\<close>

definition post_value :: "post \<Rightarrow> json" where
  "post_value p =
     JObj [(ascii ''id'', JNum (post_id p) 0), (ascii ''title'', JStr (title p)),
           (ascii ''body'', JStr (body p))]"

text \<open>
  \<^verbatim>\<open>localStorage\<close>: a map from keys to strings; \<^verbatim>\<open>getItem\<close> of a missing key is
  \<^verbatim>\<open>null\<close>, here \<open>None\<close>. The quota of the browser is not modelled: \<^verbatim>\<open>setItem\<close>
  always succeeds.
\<close>

type_synonym storage = "jstring \<rightharpoonup> jstring"

definition getItem :: "storage \<Rightarrow> jstring \<Rightarrow> jstring option" where
  "getItem st k = st k"

definition setItem :: "storage \<Rightarrow> jstring \<Rightarrow> jstring \<Rightarrow> storage" where
  "setItem st k v = st(k \<mapsto> v)"

section \<open>\<^verbatim>\<open>JSON.stringify\<close>\<close>

text \<open>
  The serialisation of ECMAScript (\<^verbatim>\<open>SerializeJSONProperty\<close> with no indentation):
  no white space, strings quoted by \<^verbatim>\<open>QuoteJSONString\<close>, integers in decimal.
  A number with a fractional part is written as its exact decimal expansion
  (JavaScript writes the shortest decimal of the binary64 value, in exponent notation
  for very small and very large magnitudes).
\<close>

definition digit_char :: "nat \<Rightarrow> code_unit" where
  "digit_char d = ascii ''0123456789abcdef'' ! d"

fun show_nat :: "nat \<Rightarrow> jstring" where
  "show_nat n =
     (if n < 10 then [digit_char n] else show_nat (n div 10) @ [digit_char (n mod 10)])"

declare show_nat.simps [simp del]

definition show_int :: "int \<Rightarrow> jstring" where
  "show_int i = (if i < 0 then cu (CHR ''-'') # show_nat (nat (- i)) else show_nat (nat i))"

definition show_num :: "int \<Rightarrow> nat \<Rightarrow> jstring" where
  "show_num m n =
     (if n = 0 then show_int m
      else let ds = show_nat (nat \<bar>m\<bar>);
               ds' = replicate (Suc n - length ds) (cu (CHR ''0'')) @ ds;
               k = length ds' - n
           in (if m < 0 then ascii ''-'' else []) @ take k ds' @ ascii ''.'' @ drop k ds')"

text \<open>
  \<^verbatim>\<open>QuoteJSONString\<close>. \<open>CHR 0x22\<close> is the double quote and \<open>CHR 0x5C\<close> the backslash.
  The string is read by code points: a leading surrogate followed by a trailing one is
  one code point and is written as the two code units. A surrogate that stands alone
  and a control character below U+0020 without a short name are written
  \<^verbatim>\<open>\uXXXX\<close> with four lower-case hexadecimal digits.
\<close>

definition is_leading :: "code_unit \<Rightarrow> bool" where
  "is_leading c = (0xD800 \<le> c \<and> c \<le> 0xDBFF)"

definition is_trailing :: "code_unit \<Rightarrow> bool" where
  "is_trailing c = (0xDC00 \<le> c \<and> c \<le> 0xDFFF)"

definition unicode_escape :: "code_unit \<Rightarrow> jstring" where
  "unicode_escape c =
     [cu (CHR 0x5C), cu (CHR ''u''), digit_char (c div 4096 mod 16), digit_char (c div 256 mod 16),
      digit_char (c div 16 mod 16), digit_char (c mod 16)]"

definition escape_char :: "code_unit \<Rightarrow> jstring" where
  "escape_char c =
     (if c = cu (CHR 0x08) then [cu (CHR 0x5C), cu (CHR ''b'')]
      else if c = cu (CHR 0x09) then [cu (CHR 0x5C), cu (CHR ''t'')]
      else if c = cu (CHR 0x0A) then [cu (CHR 0x5C), cu (CHR ''n'')]
      else if c = cu (CHR 0x0C) then [cu (CHR 0x5C), cu (CHR ''f'')]
      else if c = cu (CHR 0x0D) then [cu (CHR 0x5C), cu (CHR ''r'')]
      else if c = cu (CHR 0x22) then [cu (CHR 0x5C), cu (CHR 0x22)]
      else if c = cu (CHR 0x5C) then [cu (CHR 0x5C), cu (CHR 0x5C)]
      else if c < 0x20 \<or> is_leading c \<or> is_trailing c then unicode_escape c
      else [c])"

fun escape :: "jstring \<Rightarrow> jstring" where
  "escape [] = []"
| "escape [c] = escape_char c"
| "escape (c # d # s) =
     (if is_leading c \<and> is_trailing d then c # d # escape s
      else escape_char c @ escape (d # s))"

definition quote :: "jstring \<Rightarrow> jstring" where
  "quote s = cu (CHR 0x22) # escape s @ [cu (CHR 0x22)]"

fun comma_sep :: "jstring list \<Rightarrow> jstring" where
  "comma_sep [] = []"
| "comma_sep [x] = x"
| "comma_sep (x # y # zs) = x @ cu (CHR '','') # comma_sep (y # zs)"

fun JSON_stringify :: "json \<Rightarrow> jstring" where
  "JSON_stringify JNull = ascii ''null''"
| "JSON_stringify (JBool b) = (if b then ascii ''true'' else ascii ''false'')"
| "JSON_stringify (JNum m n) = show_num m n"
| "JSON_stringify (JStr s) = quote s"
| "JSON_stringify (JArr vs) = cu (CHR ''['') # comma_sep (map JSON_stringify vs) @ ascii '']''"
| "JSON_stringify (JObj ms) =
     cu (CHR ''{'') #
       comma_sep (map (\<lambda>(k, v). quote k @ cu (CHR '':'') # JSON_stringify v) ms) @ ascii ''}''"

section \<open>\<^verbatim>\<open>JSON.parse\<close>\<close>

text \<open>
  A recursive-descent parser of the JSON grammar (ECMA-404), on the characters of the
  text. Each parser takes the text still to be read and returns what it read with the
  rest of the text, or \<open>None\<close> where \<^verbatim>\<open>JSON.parse\<close> throws its \<^verbatim>\<open>SyntaxError\<close>.
\<close>

definition is_ws :: "code_unit \<Rightarrow> bool" where
  "is_ws c = (c = cu (CHR 0x20) \<or> c = cu (CHR 0x09) \<or> c = cu (CHR 0x0A) \<or> c = cu (CHR 0x0D))"

definition skip_ws :: "jstring \<Rightarrow> jstring" where
  "skip_ws s = dropWhile is_ws s"

definition is_digit :: "code_unit \<Rightarrow> bool" where
  "is_digit c = (48 \<le> c \<and> c \<le> 57)"

definition digit_val :: "code_unit \<Rightarrow> nat" where
  "digit_val c = c - 48"

definition digits_val :: "jstring \<Rightarrow> nat" where
  "digits_val ds = foldl (\<lambda>a c. 10 * a + digit_val c) 0 ds"

definition hex_val :: "code_unit \<Rightarrow> nat option" where
  "hex_val c =
     (if 48 \<le> c \<and> c \<le> 57 then Some (c - 48)
      else if 97 \<le> c \<and> c \<le> 102 then Some (c - 87)
      else if 65 \<le> c \<and> c \<le> 70 then Some (c - 55)
      else None)"

definition hex4 :: "code_unit \<Rightarrow> code_unit \<Rightarrow> code_unit \<Rightarrow> code_unit \<Rightarrow> nat option" where
  "hex4 h1 h2 h3 h4 =
     (case (hex_val h1, hex_val h2, hex_val h3, hex_val h4) of
        (Some a, Some b, Some c, Some d) \<Rightarrow> Some (((a * 16 + b) * 16 + c) * 16 + d)
      | _ \<Rightarrow> None)"

definition unescape :: "code_unit \<Rightarrow> code_unit option" where
  "unescape e =
     (if e = cu (CHR 0x22) then Some (cu (CHR 0x22))
      else if e = cu (CHR 0x5C) then Some (cu (CHR 0x5C))
      else if e = cu (CHR ''/'') then Some (cu (CHR ''/''))
      else if e = cu (CHR ''b'') then Some (cu (CHR 0x08))
      else if e = cu (CHR ''f'') then Some (cu (CHR 0x0C))
      else if e = cu (CHR ''n'') then Some (cu (CHR 0x0A))
      else if e = cu (CHR ''r'') then Some (cu (CHR 0x0D))
      else if e = cu (CHR ''t'') then Some (cu (CHR 0x09))
      else None)"

text \<open>
  The characters of a string, after its opening quote and up to the closing one. A raw
  control character is an error; an escape \<^verbatim>\<open>\uXXXX\<close> gives the code unit it names.
\<close>

fun parse_chars :: "jstring \<Rightarrow> (jstring \<times> jstring) option" where
  "parse_chars [] = None"
| "parse_chars (c # cs) =
     (if c = cu (CHR 0x22) then Some ([], cs)
      else if c = cu (CHR 0x5C) then
        (case cs of
           [] \<Rightarrow> None
         | e # r \<Rightarrow>
             if e = cu (CHR ''u'') then
               (case r of
                  h1 # h2 # h3 # h4 # r' \<Rightarrow>
                    (case hex4 h1 h2 h3 h4 of
                       None \<Rightarrow> None
                     | Some n \<Rightarrow> map_option (apfst ((#) n)) (parse_chars r'))
                | _ \<Rightarrow> None)
             else
               (case unescape e of
                  None \<Rightarrow> None
                | Some x \<Rightarrow> map_option (apfst ((#) x)) (parse_chars r)))
      else if c < 0x20 then None
      else map_option (apfst ((#) c)) (parse_chars cs))"

fun strip_prefix :: "jstring \<Rightarrow> jstring \<Rightarrow> jstring option" where
  "strip_prefix [] s = Some s"
| "strip_prefix (p # ps) [] = None"
| "strip_prefix (p # ps) (c # cs) = (if p = c then strip_prefix ps cs else None)"

text \<open>
  Numbers: an optional minus sign, an integer part without a leading zero, an optional
  fraction and an optional exponent. \<open>decimal\<close> gives the value in lowest form. It is
  the exact value of the literal: \<^verbatim>\<open>JSON.parse\<close> gives the binary64 number nearest to
  it, which is the same number when the literal denotes a safe integer.
\<close>

fun normalise :: "int \<Rightarrow> nat \<Rightarrow> json" where
  "normalise m 0 = JNum m 0"
| "normalise m (Suc n) = (if m mod 10 = 0 then normalise (m div 10) n else JNum m (Suc n))"

definition decimal :: "bool \<Rightarrow> jstring \<Rightarrow> jstring \<Rightarrow> int \<Rightarrow> json" where
  "decimal neg ip fd e =
     (let m = int (digits_val (ip @ fd));
          m' = (if neg then - m else m);
          sc = e - int (length fd)
      in if 0 \<le> sc then JNum (m' * 10 ^ nat sc) 0 else normalise m' (nat (- sc)))"

definition parse_sign :: "jstring \<Rightarrow> bool \<times> jstring" where
  "parse_sign s =
     (case s of
        [] \<Rightarrow> (False, s)
      | c # r \<Rightarrow> if c = cu (CHR ''-'') then (True, r) else (False, s))"

definition parse_int_part :: "jstring \<Rightarrow> (jstring \<times> jstring) option" where
  "parse_int_part s =
     (case s of
        [] \<Rightarrow> None
      | c # r \<Rightarrow>
          if c = cu (CHR ''0'') then Some ([c], r)
          else if is_digit c then Some (takeWhile is_digit s, dropWhile is_digit s)
          else None)"

definition parse_frac :: "jstring \<Rightarrow> (jstring \<times> jstring) option" where
  "parse_frac s =
     (case s of
        [] \<Rightarrow> Some ([], s)
      | c # r \<Rightarrow>
          if c = cu (CHR ''.'') then
            (if takeWhile is_digit r = [] then None
             else Some (takeWhile is_digit r, dropWhile is_digit r))
          else Some ([], s))"

definition parse_exp_sign :: "jstring \<Rightarrow> bool \<times> jstring" where
  "parse_exp_sign s =
     (case s of
        [] \<Rightarrow> (False, s)
      | c # r \<Rightarrow>
          if c = cu (CHR ''+'') then (False, r)
          else if c = cu (CHR ''-'') then (True, r)
          else (False, s))"

definition parse_exp :: "jstring \<Rightarrow> (int \<times> jstring) option" where
  "parse_exp s =
     (case s of
        [] \<Rightarrow> Some (0, s)
      | c # r \<Rightarrow>
          if c = cu (CHR ''e'') \<or> c = cu (CHR ''E'') then
            (let (neg, r') = parse_exp_sign r;
                 ds = takeWhile is_digit r'
             in if ds = [] then None
                else Some (if neg then - int (digits_val ds) else int (digits_val ds),
                           dropWhile is_digit r'))
          else Some (0, s))"

definition parse_number :: "jstring \<Rightarrow> (json \<times> jstring) option" where
  "parse_number s =
     (let (neg, s1) = parse_sign s
      in case parse_int_part s1 of
           None \<Rightarrow> None
         | Some (ip, s2) \<Rightarrow>
             (case parse_frac s2 of
                None \<Rightarrow> None
              | Some (fd, s3) \<Rightarrow>
                  (case parse_exp s3 of
                     None \<Rightarrow> None
                   | Some (e, s4) \<Rightarrow> Some (decimal neg ip fd e, s4))))"

text \<open>
  An object keeps its properties in the order of their first definition; a later
  definition of a name replaces the value and keeps the place. (JavaScript moreover lists
  the names that are array indices first; no object of this program has such a name.)
\<close>

fun obj_put :: "jstring \<Rightarrow> json \<Rightarrow> (jstring \<times> json) list \<Rightarrow> (jstring \<times> json) list" where
  "obj_put k v [] = [(k, v)]"
| "obj_put k v ((k', v') # ms) = (if k = k' then (k, v) # ms else (k', v') # obj_put k v ms)"

text \<open>
  Values, the elements of an array after its bracket, and the members of an object after
  its brace. The first argument bounds the number of nested calls, which makes the three
  functions total; two nested calls read at least one character, so \<open>JSON_parse\<close> starts
  with twice the length of the text (lemma \<open>parse_value_fuel\<close> below: a larger bound
  changes no result).
\<close>

fun parse_value :: "nat \<Rightarrow> jstring \<Rightarrow> (json \<times> jstring) option"
  and parse_elements :: "nat \<Rightarrow> jstring \<Rightarrow> (json list \<times> jstring) option"
  and parse_members ::
    "nat \<Rightarrow> (jstring \<times> json) list \<Rightarrow> jstring \<Rightarrow> ((jstring \<times> json) list \<times> jstring) option"
where
  "parse_value 0 s = None"
| "parse_value (Suc n) s =
     (case s of
        [] \<Rightarrow> None
      | c # cs \<Rightarrow>
          if c = cu (CHR ''['') then
            (case skip_ws cs of
               [] \<Rightarrow> None
             | d # r \<Rightarrow>
                 if d = cu (CHR '']'') then Some (JArr [], r)
                 else map_option (apfst JArr) (parse_elements n cs))
          else if c = cu (CHR ''{'') then
            (case skip_ws cs of
               [] \<Rightarrow> None
             | d # r \<Rightarrow>
                 if d = cu (CHR ''}'') then Some (JObj [], r)
                 else map_option (apfst JObj) (parse_members n [] cs))
          else if c = cu (CHR 0x22) then map_option (apfst JStr) (parse_chars cs)
          else if c = cu (CHR ''t'') then map_option (Pair (JBool True)) (strip_prefix (ascii ''rue'') cs)
          else if c = cu (CHR ''f'') then map_option (Pair (JBool False)) (strip_prefix (ascii ''alse'') cs)
          else if c = cu (CHR ''n'') then map_option (Pair JNull) (strip_prefix (ascii ''ull'') cs)
          else parse_number s)"
| "parse_elements 0 s = None"
| "parse_elements (Suc n) s =
     (case parse_value n (skip_ws s) of
        None \<Rightarrow> None
      | Some (v, r) \<Rightarrow>
          (case skip_ws r of
             [] \<Rightarrow> None
           | d # r' \<Rightarrow>
               if d = cu (CHR '','') then map_option (apfst ((#) v)) (parse_elements n r')
               else if d = cu (CHR '']'') then Some ([v], r')
               else None))"
| "parse_members 0 acc s = None"
| "parse_members (Suc n) acc s =
     (case skip_ws s of
        [] \<Rightarrow> None
      | q # r \<Rightarrow>
          if q \<noteq> cu (CHR 0x22) then None
          else
            (case parse_chars r of
               None \<Rightarrow> None
             | Some (k, r1) \<Rightarrow>
                 (case skip_ws r1 of
                    [] \<Rightarrow> None
                  | col # r2 \<Rightarrow>
                      if col \<noteq> cu (CHR '':'') then None
                      else
                        (case parse_value n (skip_ws r2) of
                           None \<Rightarrow> None
                         | Some (v, r3) \<Rightarrow>
                             (case skip_ws r3 of
                                [] \<Rightarrow> None
                              | d # r4 \<Rightarrow>
                                  if d = cu (CHR '','') then parse_members n (obj_put k v acc) r4
                                  else if d = cu (CHR ''}'') then Some (obj_put k v acc, r4)
                                  else None)))))"

declare parse_value.simps(2) [simp del]
declare parse_elements.simps(2) [simp del]
declare parse_members.simps(2) [simp del]

text \<open>The whole text is one value between white space.\<close>

definition JSON_parse :: "jstring \<Rightarrow> error + json" where
  "JSON_parse s =
     (case parse_value (Suc (2 * length s)) (skip_ws s) of
        None \<Rightarrow> Inl (SyntaxError s)
      | Some (v, r) \<Rightarrow> if skip_ws r = [] then Inr v else Inl (SyntaxError s))"

section \<open>The data-access hooks\<close>

text \<open>
  Each asynchronous function of the source is a function from the storage to its outcome
  and the storage it leaves: \<open>Inr\<close> is the value its promise is fulfilled with, \<open>Inl\<close>
  the error it is rejected with.
\<close>

subsection \<open>The query library\<close>

text \<open>
  The library \<^verbatim>\<open>@tanstack/react-query\<close> is not part of the program; the program uses
  its version 5 (\<^verbatim>\<open>gcTime\<close>, \<^verbatim>\<open>isPending\<close>, status \<^verbatim>\<open>"pending"\<close>). What follows is
  modelled from the behaviour the library documents, for a query with nothing cached:
  \<^item> a query that is not \<^verbatim>\<open>enabled\<close> does not run its query function and stays
    \<^verbatim>\<open>pending\<close>;
  \<^item> a query function that is rejected gives status \<^verbatim>\<open>error\<close> with that error (after
    the library has run it again, three more times by default; on an unchanged storage
    every run ends alike);
  \<^item> query data cannot be \<^verbatim>\<open>undefined\<close>: a query function fulfilled with
    \<^verbatim>\<open>undefined\<close> is failed by the library, with an error of its own;
  \<^item> a query function fulfilled with any other value gives status \<^verbatim>\<open>success\<close> with the
    value as \<^verbatim>\<open>data\<close>.
  The argument of \<open>useQuery\<close> is the outcome of the query function, \<open>None\<close> when it was
  not run.
\<close>

datatype status = StatusPending | StatusSuccess | StatusError

record query_result =
  status :: status
  data :: "json option"
  err :: "error option"

definition useQuery :: "json list \<Rightarrow> (error + json option) option \<Rightarrow> query_result" where
  "useQuery queryKey outcome =
     (case outcome of
        None \<Rightarrow> \<lparr>status = StatusPending, data = None, err = None\<rparr>
      | Some (Inl e) \<Rightarrow> \<lparr>status = StatusError, data = None, err = Some e\<rparr>
      | Some (Inr None) \<Rightarrow>
          \<lparr>status = StatusError, data = None, err = Some (UndefinedData queryKey)\<rparr>
      | Some (Inr (Some v)) \<Rightarrow> \<lparr>status = StatusSuccess, data = Some v, err = None\<rparr>)"

text \<open>
  The cache of the query client: the data of each query under its key. Of
  \<^verbatim>\<open>setQueryData(key, updater)\<close> the contract is used: the entry under the key becomes
  the updater's result on the data cached there (\<^verbatim>\<open>undefined\<close> when there is none), and
  no other entry changes.
\<close>

type_synonym cache = "json list \<rightharpoonup> json"

definition setQueryData ::
  "cache \<Rightarrow> json list \<Rightarrow> (json option \<Rightarrow> error + json) \<Rightarrow> error + cache" where
  "setQueryData c k updater =
     (case updater (c k) of
        Inl e \<Rightarrow> Inl e
      | Inr v \<Rightarrow> Inr (c(k \<mapsto> v)))"

subsection \<open>\<^verbatim>\<open>usePosts\<close>\<close>

text \<open>
  \<^verbatim>\<open>
  const response = localStorage.getItem("posts");
  if (!response) { localStorage.setItem("posts", "[]"); return []; }
  else { return await JSON.parse(response); }
  \<close>
  \<^verbatim>\<open>!response\<close> holds of \<^verbatim>\<open>null\<close> and of the empty string.
\<close>

definition usePosts_queryKey :: "json list" where
  "usePosts_queryKey = [JStr (ascii ''posts'')]"

definition usePosts_queryFn :: "storage \<Rightarrow> (error + json) \<times> storage" where
  "usePosts_queryFn st =
     (case getItem st (ascii ''posts'') of
        None \<Rightarrow> (Inr (JArr []), setItem st (ascii ''posts'') (ascii ''[]''))
      | Some response \<Rightarrow>
          if response = [] then (Inr (JArr []), setItem st (ascii ''posts'') (ascii ''[]''))
          else (JSON_parse response, st))"

text \<open>What \<^verbatim>\<open>usePosts()\<close> returns to the view once its query has settled.\<close>

definition usePosts :: "storage \<Rightarrow> query_result" where
  "usePosts st = useQuery usePosts_queryKey (Some (map_sum id Some (fst (usePosts_queryFn st))))"

subsection \<open>\<^verbatim>\<open>useAddPost\<close>\<close>

text \<open>\<^verbatim>\<open>response.push(newPost)\<close>: only an array has the method.\<close>

definition push :: "json \<Rightarrow> json \<Rightarrow> error + json" where
  "push response v =
     (case response of
        JArr xs \<Rightarrow> Inr (JArr (xs @ [v]))
      | _ \<Rightarrow> Inl TypeError)"

text \<open>
  \<^verbatim>\<open>JSON.parse(localStorage.getItem("posts") ?? "[]")\<close>: the collection the
  mutation reads; \<^verbatim>\<open>??\<close> replaces \<^verbatim>\<open>null\<close> only.
\<close>

definition read_collection :: "storage \<Rightarrow> error + json" where
  "read_collection st =
     JSON_parse (case getItem st (ascii ''posts'') of None \<Rightarrow> ascii ''[]'' | Some s \<Rightarrow> s)"

text \<open>
  \<^verbatim>\<open>
  const response = JSON.parse(localStorage.getItem("posts") ?? "[]") as Post[];
  response.push(newPost);
  localStorage.setItem("posts", JSON.stringify(response));
  return newPost;
  \<close>
  An exception leaves before \<^verbatim>\<open>setItem\<close>.
\<close>

definition useAddPost_mutationFn :: "post \<Rightarrow> storage \<Rightarrow> (error + post) \<times> storage" where
  "useAddPost_mutationFn newPost st =
     (case read_collection st of
        Inl e \<Rightarrow> (Inl e, st)
      | Inr response \<Rightarrow>
          (case push response (post_value newPost) of
             Inl e \<Rightarrow> (Inl e, st)
           | Inr response' \<Rightarrow>
               (Inr newPost, setItem st (ascii ''posts'') (JSON_stringify response'))))"

text \<open>
  The spread \<^verbatim>\<open>[...x]\<close> iterates an array, or a string by its code points (a leading
  surrogate with the trailing one after it is one element); any other value of the model
  is not iterable.
\<close>

fun code_points :: "jstring \<Rightarrow> jstring list" where
  "code_points [] = []"
| "code_points [c] = [[c]]"
| "code_points (c # d # s) =
     (if is_leading c \<and> is_trailing d then [c, d] # code_points s
      else [c] # code_points (d # s))"

definition spread :: "json \<Rightarrow> error + json list" where
  "spread v =
     (case v of
        JArr xs \<Rightarrow> Inr xs
      | JStr s \<Rightarrow> Inr (map JStr (code_points s))
      | _ \<Rightarrow> Inl TypeError)"

text \<open>
  \<^verbatim>\<open>(posts) => [...(posts ?? []), post]\<close>; \<^verbatim>\<open>??\<close> replaces \<^verbatim>\<open>undefined\<close> and
  \<^verbatim>\<open>null\<close>.
\<close>

definition append_post :: "post \<Rightarrow> json option \<Rightarrow> error + json" where
  "append_post p posts =
     (case spread (case posts of None \<Rightarrow> JArr [] | Some JNull \<Rightarrow> JArr [] | Some v \<Rightarrow> v) of
        Inl e \<Rightarrow> Inl e
      | Inr xs \<Rightarrow> Inr (JArr (xs @ [post_value p])))"

definition useAddPost_onSuccess :: "post \<Rightarrow> cache \<Rightarrow> error + cache" where
  "useAddPost_onSuccess p c = setQueryData c [JStr (ascii ''posts'')] (append_post p)"

text \<open>
  \<^verbatim>\<open>mutate({ newPost })\<close>: the mutation function runs on the storage, and
  \<^verbatim>\<open>onSuccess\<close> runs on the cache with the post it returned, only when it was
  fulfilled.
\<close>

definition useAddPost_mutate ::
  "post \<Rightarrow> storage \<times> cache \<Rightarrow> (error + post) \<times> storage \<times> cache" where
  "useAddPost_mutate newPost sc =
     (case useAddPost_mutationFn newPost (fst sc) of
        (Inl e, st') \<Rightarrow> (Inl e, st', snd sc)
      | (Inr p, st') \<Rightarrow>
          (case useAddPost_onSuccess p (snd sc) of
             Inl e \<Rightarrow> (Inl e, st', snd sc)
           | Inr c' \<Rightarrow> (Inr p, st', c')))"

text \<open>A sequence of presses of the button: the mutations one after the other.\<close>

fun add_posts :: "post list \<Rightarrow> storage \<Rightarrow> (error + unit) \<times> storage" where
  "add_posts [] st = (Inr (), st)"
| "add_posts (p # ps) st =
     (case useAddPost_mutationFn p st of
        (Inl e, st') \<Rightarrow> (Inl e, st')
      | (Inr _, st') \<Rightarrow> add_posts ps st')"

text \<open>The number of elements of the collection the mutation would read.\<close>

definition stored_length :: "storage \<Rightarrow> nat option" where
  "stored_length st =
     (case read_collection st of
        Inr (JArr xs) \<Rightarrow> Some (length xs)
      | _ \<Rightarrow> None)"

subsection \<open>\<^verbatim>\<open>usePost\<close>\<close>

text \<open>
  \<^verbatim>\<open>post.id\<close> in the callback of \<^verbatim>\<open>find\<close>: \<^verbatim>\<open>null\<close> has no properties, an object
  has the ones it was given, and every other value of the model has no \<^verbatim>\<open>id\<close>.
\<close>

definition get_id :: "json \<Rightarrow> error + json option" where
  "get_id v =
     (case v of
        JNull \<Rightarrow> Inl TypeError
      | JObj ms \<Rightarrow> Inr (map_of ms (ascii ''id''))
      | _ \<Rightarrow> Inr None)"

text \<open>\<^verbatim>\<open>posts.find((post) => post.id === postId)\<close>, from the first element on.\<close>

fun find_post :: "int \<Rightarrow> json list \<Rightarrow> error + json option" where
  "find_post postId [] = Inr None"
| "find_post postId (x # xs) =
     (case get_id x of
        Inl e \<Rightarrow> Inl e
      | Inr v \<Rightarrow> if v = Some (JNum postId 0) then Inr (Some x) else find_post postId xs)"

text \<open>
  \<^verbatim>\<open>
  const response = localStorage.getItem("posts");
  if (!response) { throw new Error("No posts yet"); }
  else {
    const posts = (await JSON.parse(response)) as Post[];
    return posts.find((post) => post.id === postId) as Post;
  }
  \<close>
  The function never writes: the storage it leaves is the one it got.
\<close>

definition usePost_queryFn :: "int \<Rightarrow> storage \<Rightarrow> (error + json option) \<times> storage" where
  "usePost_queryFn postId st =
     (case getItem st (ascii ''posts'') of
        None \<Rightarrow> (Inl (Error (ascii ''No posts yet'')), st)
      | Some response \<Rightarrow>
          if response = [] then (Inl (Error (ascii ''No posts yet'')), st)
          else
            (case JSON_parse response of
               Inl e \<Rightarrow> (Inl e, st)
             | Inr posts \<Rightarrow>
                 (case posts of
                    JArr xs \<Rightarrow> (find_post postId xs, st)
                  | _ \<Rightarrow> (Inl TypeError, st))))"

definition usePost_queryKey :: "int \<Rightarrow> json list" where
  "usePost_queryKey postId = [JStr (ascii ''post''), JNum postId 0]"

text \<open>\<^verbatim>\<open>ToBoolean\<close>, and \<^verbatim>\<open>enabled: !!postId\<close>.\<close>

fun to_boolean :: "json \<Rightarrow> bool" where
  "to_boolean JNull = False"
| "to_boolean (JBool b) = b"
| "to_boolean (JNum m n) = (m \<noteq> 0)"
| "to_boolean (JStr s) = (s \<noteq> [])"
| "to_boolean (JArr vs) = True"
| "to_boolean (JObj ms) = True"

definition usePost_enabled :: "int \<Rightarrow> bool" where
  "usePost_enabled postId = (\<not> \<not> to_boolean (JNum postId 0))"

text \<open>
  The run of the query of \<open>usePost\<close>: a disabled query does not run its query function
  (\<open>None\<close>: no read).
\<close>

definition usePost ::
  "int \<Rightarrow> storage \<Rightarrow> ((error + json option) \<times> storage) option" where
  "usePost postId st =
     (if usePost_enabled postId then Some (usePost_queryFn postId st) else None)"

text \<open>What \<^verbatim>\<open>usePost(postId)\<close> returns to the view once its query has settled.\<close>

definition usePost_result :: "int \<Rightarrow> storage \<Rightarrow> query_result" where
  "usePost_result postId st =
     useQuery (usePost_queryKey postId) (map_option fst (usePost postId st))"

subsection \<open>The button of \<^verbatim>\<open>Posts\<close>\<close>

text \<open>
  The arithmetic of the button is that of binary64. A non-negative binary64 number is
  \<open>mant / 2 ^ frac_bits\<close>; \<^verbatim>\<open>Math.random()\<close> returns one that is at least 0 and less
  than 1 (\<open>is_random\<close>: at most 53 significant bits, no bit below \<open>2 ^ - 1074\<close>).
\<close>

record binary64 =
  mant :: nat
  frac_bits :: nat

definition is_random :: "binary64 \<Rightarrow> bool" where
  "is_random r = (mant r < 2 ^ 53 \<and> frac_bits r \<le> 1074 \<and> mant r < 2 ^ frac_bits r)"

fun bitlen :: "nat \<Rightarrow> nat" where
  "bitlen n = (if n = 0 then 0 else Suc (bitlen (n div 2)))"

declare bitlen.simps [simp del]

text \<open>
  \<^verbatim>\<open>x * n\<close> for a binary64 number \<open>x\<close> below 1 and a natural number \<open>n\<close> that binary64
  holds exactly: the exact product, rounded to 53 significant bits when it has more, to
  the nearest and at a tie to the even one. (The product is below \<open>n\<close>, so it neither
  overflows nor loses bits at the low end.)
\<close>

definition times64 :: "binary64 \<Rightarrow> nat \<Rightarrow> binary64" where
  "times64 x n =
     (let p = mant x * n; s = bitlen p - 53
      in if s = 0 then \<lparr>mant = p, frac_bits = frac_bits x\<rparr>
         else
           let q = p div 2 ^ s; r = p mod 2 ^ s; h = 2 ^ (s - 1)
           in \<lparr>mant = (if h < r \<or> (r = h \<and> odd q) then q + 1 else q),
               frac_bits = frac_bits x - s\<rparr>)"

text \<open>\<^verbatim>\<open>Math.trunc\<close> of a non-negative number drops the fraction.\<close>

definition Math_trunc :: "binary64 \<Rightarrow> int" where
  "Math_trunc x = int (mant x div 2 ^ frac_bits x)"

text \<open>
  \<^verbatim>\<open>
  const id = Math.trunc(Math.random() * 100000);
  mutate({ newPost: { id: Math.trunc(Math.random() * 100000),
                      title: `hello ${id}`, body: "yoo" } });
  \<close>
  \<open>r1\<close> and \<open>r2\<close> are the results of the first and of the second call of
  \<^verbatim>\<open>Math.random\<close>.
\<close>

definition onClick_newPost :: "binary64 \<Rightarrow> binary64 \<Rightarrow> post" where
  "onClick_newPost r1 r2 =
     (let id = Math_trunc (times64 r1 100000)
      in \<lparr>post_id = Math_trunc (times64 r2 100000),
          title = ascii ''hello '' @ show_int id,
          body = ascii ''yoo''\<rparr>)"

section \<open>The serialisation of posts read back\<close>

text \<open>
  Two notions for the statements below: a text at which a number may end (the end of the
  text, or a character that continues neither its digits, its fraction nor its exponent),
  and the text of a post, written out.
\<close>

definition num_end :: "jstring \<Rightarrow> bool" where
  "num_end s =
     (case s of
        [] \<Rightarrow> True
      | c # _ \<Rightarrow>
          \<not> is_digit c \<and> c \<noteq> cu (CHR ''.'') \<and> c \<noteq> cu (CHR ''e'') \<and> c \<noteq> cu (CHR ''E''))"

definition stringify_post :: "post \<Rightarrow> jstring" where
  "stringify_post p =
     cu (CHR ''{'') # quote (ascii ''id'') @ cu (CHR '':'') # show_int (post_id p) @ cu (CHR '','') #
       quote (ascii ''title'') @ cu (CHR '':'') # quote (title p) @ cu (CHR '','') #
       quote (ascii ''body'') @ cu (CHR '':'') # quote (body p) @ ascii ''}''"

section \<open>Literals\<close>

lemma cu_eq_iff [simp]: "cu a = cu b \<longleftrightarrow> a = b"
  by (simp add: cu_def)

lemma ascii_simps [simp]: "ascii [] = []" "ascii (c # cs) = cu c # ascii cs"
  by (simp_all add: ascii_def)

lemma ascii_Nil_iff [simp]: "ascii s = [] \<longleftrightarrow> s = []" "[] = ascii s \<longleftrightarrow> s = []"
  by (auto simp: ascii_def)

lemma ascii_eq_iff [simp]: "ascii a = ascii b \<longleftrightarrow> a = b"
  by (simp add: ascii_def inj_on_def inj_map_eq_map)

lemma bitlen_0 [simp]: "bitlen 0 = 0"
  by (simp add: bitlen.simps)

lemma bitlen_pos: "0 < n \<Longrightarrow> bitlen n = Suc (bitlen (n div 2))"
  by (subst bitlen.simps) simp

section \<open>The parser\<close>

subsection \<open>The bound on nested calls\<close>

text \<open>
  A parser that returns has read at least one character, and returns the same with any
  bound from twice the number of characters it read. So the bound \<open>JSON_parse\<close> starts
  with never cuts a parse short: a text that some bound parses is parsed by
  \<open>JSON_parse\<close> (\<open>JSON_parse_fuel\<close>), and \<open>SyntaxError\<close> means that no bound parses it.
\<close>

lemma length_skip_ws: "length (skip_ws s) \<le> length s"
  by (simp add: skip_ws_def length_dropWhile_le)

lemma parse_chars_shorter: "parse_chars s = Some (x, r) \<Longrightarrow> length r < length s"
proof (induction s arbitrary: x rule: parse_chars.induct)
  case 1
  then show ?case by simp
next
  case (2 c cs)
  then show ?case
    by (auto split: if_splits list.splits option.splits) fastforce+
qed

lemma strip_prefix_shorter: "strip_prefix p s = Some r \<Longrightarrow> length r \<le> length s"
  by (induction p s rule: strip_prefix.induct) (auto split: if_splits)

lemma parse_number_shorter: "parse_number s = Some (v, r) \<Longrightarrow> length r < length s"
proof -
  have sg: "length (snd (parse_sign t)) \<le> length t" for t
    by (auto simp: parse_sign_def split: list.splits)
  have ip: "parse_int_part t = Some (a, u) \<Longrightarrow> length u < length t" for t a u
    by (auto simp: parse_int_part_def less_Suc_eq_le length_dropWhile_le split: list.splits if_splits)
  have fr: "parse_frac t = Some (a, u) \<Longrightarrow> length u \<le> length t" for t a u
    by (auto simp: parse_frac_def le_SucI length_dropWhile_le split: list.splits if_splits)
  have es: "length (snd (parse_exp_sign t)) \<le> length t" for t
    by (auto simp: parse_exp_sign_def split: list.splits)
  have ex: "parse_exp t = Some (a, u) \<Longrightarrow> length u \<le> length t" for t a u
  proof -
    assume a: "parse_exp t = Some (a, u)"
    show ?thesis
    proof (cases t)
      case Nil
      with a show ?thesis by (simp add: parse_exp_def)
    next
      case (Cons c t')
      show ?thesis
      proof (cases "c = cu (CHR ''e'') \<or> c = cu (CHR ''E'')")
        case True
        with a Cons have "u = dropWhile is_digit (snd (parse_exp_sign t'))"
          by (auto simp: parse_exp_def Let_def split: prod.splits if_splits)
        then have "length u \<le> length t'"
          using es [of t'] length_dropWhile_le [of is_digit "snd (parse_exp_sign t')"] by simp
        with Cons show ?thesis by simp
      next
        case False
        with a Cons show ?thesis by (auto simp: parse_exp_def)
      qed
    qed
  qed
  assume "parse_number s = Some (v, r)"
  then obtain ipd s2 fd s3 e where
    1: "parse_int_part (snd (parse_sign s)) = Some (ipd, s2)" and
    2: "parse_frac s2 = Some (fd, s3)" and
    3: "parse_exp s3 = Some (e, r)"
    by (auto simp: parse_number_def split: prod.splits option.splits)
  from ip [OF 1] fr [OF 2] ex [OF 3] sg [of s] show ?thesis by simp
qed

lemma parse_value_pos: "parse_value n s = Some x \<Longrightarrow> \<exists>k. n = Suc k"
  by (cases n) simp_all

lemma parse_scalar_fuel:
  "c \<noteq> cu (CHR ''['') \<Longrightarrow> c \<noteq> cu (CHR ''{'') \<Longrightarrow>
   parse_value (Suc a) (c # cs) = parse_value (Suc b) (c # cs)"
  by (simp add: parse_value.simps)

lemma parse_scalar_shorter:
  assumes "c \<noteq> cu (CHR ''['')" and "c \<noteq> cu (CHR ''{'')" and "parse_value (Suc a) (c # cs) = Some (v, r)"
  shows "length r < length (c # cs)"
  using assms
  by (auto simp: parse_value.simps less_Suc_eq_le split: if_splits
      dest!: parse_chars_shorter strip_prefix_shorter parse_number_shorter)

lemma parse_value_step:
  assumes E: "\<And>s vs r. parse_elements n s = Some (vs, r) \<Longrightarrow>
      length r < length s \<and> (\<forall>m. 2 * (length s - length r) \<le> Suc m \<longrightarrow> parse_elements m s = Some (vs, r))"
    and M: "\<And>acc s ms r. parse_members n acc s = Some (ms, r) \<Longrightarrow>
      length r < length s \<and> (\<forall>m. 2 * (length s - length r) \<le> Suc m \<longrightarrow> parse_members m acc s = Some (ms, r))"
    and pv: "parse_value (Suc n) s = Some (v, r)"
  shows "length r < length s \<and> (\<forall>m. 2 * (length s - length r) \<le> m \<longrightarrow> parse_value m s = Some (v, r))"
proof (cases s)
  case Nil
  with pv show ?thesis by (simp add: parse_value.simps)
next
  case (Cons c cs)
  have sk: "length (skip_ws cs) \<le> length cs" by (rule length_skip_ws)
  consider (arr0) r0 where "c = cu (CHR ''['')" "skip_ws cs = cu (CHR '']'') # r0"
    | (arr) d r0 where "c = cu (CHR ''['')" "skip_ws cs = d # r0" "d \<noteq> cu (CHR '']'')"
    | (obj0) r0 where "c = cu (CHR ''{'')" "skip_ws cs = cu (CHR ''}'') # r0"
    | (obj) d r0 where "c = cu (CHR ''{'')" "skip_ws cs = d # r0" "d \<noteq> cu (CHR ''}'')"
    | (scalar) "c \<noteq> cu (CHR ''['')" "c \<noteq> cu (CHR ''{'')"
    using pv Cons by (cases "skip_ws cs") (auto simp: parse_value.simps split: if_splits)
  then show ?thesis
  proof cases
    case arr0
    with pv Cons have "v = JArr []" "r = r0" by (simp_all add: parse_value.simps)
    with arr0 sk Cons have len: "length r < length s" by simp
    have "parse_value m s = Some (v, r)" if "2 * (length s - length r) \<le> m" for m
    proof -
      from that len obtain k where "m = Suc k" by (cases m) auto
      with arr0 Cons \<open>v = JArr []\<close> \<open>r = r0\<close> show ?thesis by (simp add: parse_value.simps)
    qed
    with len show ?thesis by blast
  next
    case arr
    with pv Cons obtain vs where el: "parse_elements n cs = Some (vs, r)" and v: "v = JArr vs"
      by (auto simp: parse_value.simps)
    from E [OF el] have len': "length r < length cs"
      and fuel: "\<And>m. 2 * (length cs - length r) \<le> Suc m \<Longrightarrow> parse_elements m cs = Some (vs, r)"
      by blast+
    from len' Cons have len: "length r < length s" by simp
    have "parse_value m s = Some (v, r)" if "2 * (length s - length r) \<le> m" for m
    proof -
      from that len obtain k where k: "m = Suc k" by (cases m) auto
      with that len' Cons have "2 * (length cs - length r) \<le> Suc k" by simp
      from fuel [OF this] arr v k Cons show ?thesis by (simp add: parse_value.simps)
    qed
    with len show ?thesis by blast
  next
    case obj0
    with pv Cons have "v = JObj []" "r = r0" by (simp_all add: parse_value.simps)
    with obj0 sk Cons have len: "length r < length s" by simp
    have "parse_value m s = Some (v, r)" if "2 * (length s - length r) \<le> m" for m
    proof -
      from that len obtain k where "m = Suc k" by (cases m) auto
      with obj0 Cons \<open>v = JObj []\<close> \<open>r = r0\<close> show ?thesis by (simp add: parse_value.simps)
    qed
    with len show ?thesis by blast
  next
    case obj
    with pv Cons obtain ms where el: "parse_members n [] cs = Some (ms, r)" and v: "v = JObj ms"
      by (auto simp: parse_value.simps)
    from M [OF el] have len': "length r < length cs"
      and fuel: "\<And>m. 2 * (length cs - length r) \<le> Suc m \<Longrightarrow> parse_members m [] cs = Some (ms, r)"
      by blast+
    from len' Cons have len: "length r < length s" by simp
    have "parse_value m s = Some (v, r)" if "2 * (length s - length r) \<le> m" for m
    proof -
      from that len obtain k where k: "m = Suc k" by (cases m) auto
      with that len' Cons have "2 * (length cs - length r) \<le> Suc k" by simp
      from fuel [OF this] obj v k Cons show ?thesis by (simp add: parse_value.simps)
    qed
    with len show ?thesis by blast
  next
    case scalar
    from parse_scalar_shorter [OF scalar] pv Cons have len: "length r < length s" by simp
    have "parse_value m s = Some (v, r)" if "2 * (length s - length r) \<le> m" for m
    proof -
      from that len obtain k where k: "m = Suc k" by (cases m) auto
      show ?thesis using pv parse_scalar_fuel [OF scalar, of k cs n] by (simp add: k Cons)
    qed
    with len show ?thesis by blast
  qed
qed

lemma parse_elements_step:
  assumes V: "\<And>s v r. parse_value n s = Some (v, r) \<Longrightarrow>
      length r < length s \<and> (\<forall>m. 2 * (length s - length r) \<le> m \<longrightarrow> parse_value m s = Some (v, r))"
    and E: "\<And>s vs r. parse_elements n s = Some (vs, r) \<Longrightarrow>
      length r < length s \<and> (\<forall>m. 2 * (length s - length r) \<le> Suc m \<longrightarrow> parse_elements m s = Some (vs, r))"
    and pe: "parse_elements (Suc n) s = Some (vs, r)"
  shows "length r < length s \<and> (\<forall>m. 2 * (length s - length r) \<le> Suc m \<longrightarrow> parse_elements m s = Some (vs, r))"
proof -
  from pe obtain v r1 d r' where pv: "parse_value n (skip_ws s) = Some (v, r1)"
    and sk: "skip_ws r1 = d # r'"
    and rest: "(if d = cu (CHR '','') then map_option (apfst ((#) v)) (parse_elements n r')
                else if d = cu (CHR '']'') then Some ([v], r') else None) = Some (vs, r)"
    by (auto simp: parse_elements.simps split: option.splits list.splits)
  from V [OF pv] have l1: "length r1 < length (skip_ws s)"
    and f1: "\<And>m. 2 * (length (skip_ws s) - length r1) \<le> m \<Longrightarrow> parse_value m (skip_ws s) = Some (v, r1)"
    by blast+
  have l0: "length (skip_ws s) \<le> length s" by (rule length_skip_ws)
  have l2: "length r' < length r1"
    using length_skip_ws [of r1] sk by simp
  show ?thesis
  proof (cases "d = cu (CHR '','')")
    case True
    with rest obtain vs' where pe': "parse_elements n r' = Some (vs', r)" and vs: "vs = v # vs'"
      by auto
    from E [OF pe'] have l3: "length r < length r'"
      and f3: "\<And>m. 2 * (length r' - length r) \<le> Suc m \<Longrightarrow> parse_elements m r' = Some (vs', r)"
      by blast+
    from l0 l1 l2 l3 have len: "length r < length s" by simp
    have "parse_elements m s = Some (vs, r)" if "2 * (length s - length r) \<le> Suc m" for m
    proof -
      from that l0 l1 l2 l3 obtain k where k: "m = Suc k" by (cases m) auto
      have "2 * (length (skip_ws s) - length r1) \<le> k" using that l0 l1 l2 l3 k by simp
      from f1 [OF this] have a: "parse_value k (skip_ws s) = Some (v, r1)" .
      have "2 * (length r' - length r) \<le> Suc k" using that l0 l1 l2 l3 k by simp
      from f3 [OF this] have b: "parse_elements k r' = Some (vs', r)" .
      show ?thesis by (simp add: k parse_elements.simps a sk True b vs)
    qed
    with len show ?thesis by blast
  next
    case False
    with rest have d: "d = cu (CHR '']'')" and vs: "vs = [v]" and r: "r = r'"
      by (auto split: if_splits)
    from l0 l1 l2 r have len: "length r < length s" by simp
    have "parse_elements m s = Some (vs, r)" if "2 * (length s - length r) \<le> Suc m" for m
    proof -
      from that l0 l1 l2 r obtain k where k: "m = Suc k" by (cases m) auto
      have "2 * (length (skip_ws s) - length r1) \<le> k" using that l0 l1 l2 r k by simp
      from f1 [OF this] have a: "parse_value k (skip_ws s) = Some (v, r1)" .
      show ?thesis by (simp add: k parse_elements.simps a sk d vs r)
    qed
    with len show ?thesis by blast
  qed
qed

lemma parse_members_step:
  assumes V: "\<And>s v r. parse_value n s = Some (v, r) \<Longrightarrow>
      length r < length s \<and> (\<forall>m. 2 * (length s - length r) \<le> m \<longrightarrow> parse_value m s = Some (v, r))"
    and M: "\<And>acc s ms r. parse_members n acc s = Some (ms, r) \<Longrightarrow>
      length r < length s \<and> (\<forall>m. 2 * (length s - length r) \<le> Suc m \<longrightarrow> parse_members m acc s = Some (ms, r))"
    and pm: "parse_members (Suc n) acc s = Some (ms, r)"
  shows "length r < length s \<and> (\<forall>m. 2 * (length s - length r) \<le> Suc m \<longrightarrow> parse_members m acc s = Some (ms, r))"
proof -
  from pm obtain t k r1 r2 v r3 d r4 where s0: "skip_ws s = cu (CHR 0x22) # t"
    and pc: "parse_chars t = Some (k, r1)"
    and s1: "skip_ws r1 = cu (CHR '':'') # r2"
    and pv: "parse_value n (skip_ws r2) = Some (v, r3)"
    and s3: "skip_ws r3 = d # r4"
    and rest: "(if d = cu (CHR '','') then parse_members n (obj_put k v acc) r4
                else if d = cu (CHR ''}'') then Some (obj_put k v acc, r4) else None) = Some (ms, r)"
    by (auto simp: parse_members.simps split: option.splits list.splits if_splits)
  from V [OF pv] have lv: "length r3 < length (skip_ws r2)"
    and fv: "\<And>m. 2 * (length (skip_ws r2) - length r3) \<le> m \<Longrightarrow> parse_value m (skip_ws r2) = Some (v, r3)"
    by blast+
  have l0: "length t < length s" using length_skip_ws [of s] s0 by simp
  have l1: "length r1 < length t" using pc by (rule parse_chars_shorter)
  have l2: "length r2 < length r1" using length_skip_ws [of r1] s1 by simp
  have l2': "length (skip_ws r2) \<le> length r2" by (rule length_skip_ws)
  have l4: "length r4 < length r3" using length_skip_ws [of r3] s3 by simp
  show ?thesis
  proof (cases "d = cu (CHR '','')")
    case True
    with rest have pm': "parse_members n (obj_put k v acc) r4 = Some (ms, r)" by simp
    from M [OF pm'] have l5: "length r < length r4"
      and f5: "\<And>m. 2 * (length r4 - length r) \<le> Suc m \<Longrightarrow>
                 parse_members m (obj_put k v acc) r4 = Some (ms, r)"
      by blast+
    from l0 l1 l2 l2' lv l4 l5 have len: "length r < length s" by simp
    have "parse_members m acc s = Some (ms, r)" if "2 * (length s - length r) \<le> Suc m" for m
    proof -
      from that l0 l1 l2 l2' lv l4 l5 obtain j where j: "m = Suc j" by (cases m) auto
      have "2 * (length (skip_ws r2) - length r3) \<le> j" using that l0 l1 l2 l2' lv l4 l5 j by simp
      from fv [OF this] have a: "parse_value j (skip_ws r2) = Some (v, r3)" .
      have "2 * (length r4 - length r) \<le> Suc j" using that l0 l1 l2 l2' lv l4 l5 j by simp
      from f5 [OF this] have b: "parse_members j (obj_put k v acc) r4 = Some (ms, r)" .
      show ?thesis by (simp add: j parse_members.simps s0 pc s1 a s3 True b)
    qed
    with len show ?thesis by blast
  next
    case False
    with rest have d: "d = cu (CHR ''}'')" and ms: "ms = obj_put k v acc" and r: "r = r4"
      by (auto split: if_splits)
    from l0 l1 l2 l2' lv l4 r have len: "length r < length s" by simp
    have "parse_members m acc s = Some (ms, r)" if "2 * (length s - length r) \<le> Suc m" for m
    proof -
      from that l0 l1 l2 l2' lv l4 r obtain j where j: "m = Suc j" by (cases m) auto
      have "2 * (length (skip_ws r2) - length r3) \<le> j" using that l0 l1 l2 l2' lv l4 r j by simp
      from fv [OF this] have a: "parse_value j (skip_ws r2) = Some (v, r3)" .
      show ?thesis by (simp add: j parse_members.simps s0 pc s1 a s3 d ms r)
    qed
    with len show ?thesis by blast
  qed
qed

lemma parse_fuel:
  "(\<forall>s v r. parse_value n s = Some (v, r) \<longrightarrow>
      length r < length s \<and> (\<forall>m. 2 * (length s - length r) \<le> m \<longrightarrow> parse_value m s = Some (v, r)))
   \<and> (\<forall>s vs r. parse_elements n s = Some (vs, r) \<longrightarrow>
      length r < length s \<and> (\<forall>m. 2 * (length s - length r) \<le> Suc m \<longrightarrow> parse_elements m s = Some (vs, r)))
   \<and> (\<forall>acc s ms r. parse_members n acc s = Some (ms, r) \<longrightarrow>
      length r < length s \<and> (\<forall>m. 2 * (length s - length r) \<le> Suc m \<longrightarrow> parse_members m acc s = Some (ms, r)))"
proof (induction n)
  case 0
  show ?case by simp
next
  case (Suc n)
  then have V: "\<And>s v r. parse_value n s = Some (v, r) \<Longrightarrow>
      length r < length s \<and> (\<forall>m. 2 * (length s - length r) \<le> m \<longrightarrow> parse_value m s = Some (v, r))"
    and E: "\<And>s vs r. parse_elements n s = Some (vs, r) \<Longrightarrow>
      length r < length s \<and> (\<forall>m. 2 * (length s - length r) \<le> Suc m \<longrightarrow> parse_elements m s = Some (vs, r))"
    and M: "\<And>acc s ms r. parse_members n acc s = Some (ms, r) \<Longrightarrow>
      length r < length s \<and> (\<forall>m. 2 * (length s - length r) \<le> Suc m \<longrightarrow> parse_members m acc s = Some (ms, r))"
    by blast+
  show ?case
  proof (intro conjI)
    show "\<forall>s v r. parse_value (Suc n) s = Some (v, r) \<longrightarrow>
      length r < length s \<and> (\<forall>m. 2 * (length s - length r) \<le> m \<longrightarrow> parse_value m s = Some (v, r))"
      using parse_value_step [OF E M] by blast
    show "\<forall>s vs r. parse_elements (Suc n) s = Some (vs, r) \<longrightarrow>
      length r < length s \<and> (\<forall>m. 2 * (length s - length r) \<le> Suc m \<longrightarrow> parse_elements m s = Some (vs, r))"
      using parse_elements_step [OF V E] by blast
    show "\<forall>acc s ms r. parse_members (Suc n) acc s = Some (ms, r) \<longrightarrow>
      length r < length s \<and> (\<forall>m. 2 * (length s - length r) \<le> Suc m \<longrightarrow> parse_members m acc s = Some (ms, r))"
      using parse_members_step [OF V M] by blast
  qed
qed

lemma parse_value_fuel:
  assumes "parse_value n s = Some (v, r)" and "2 * length s \<le> m"
  shows "parse_value m s = Some (v, r)"
proof -
  from parse_fuel [of n] assms(1) have "length r < length s"
    and f: "\<And>m. 2 * (length s - length r) \<le> m \<Longrightarrow> parse_value m s = Some (v, r)"
    by blast+
  from assms(2) have "2 * (length s - length r) \<le> m" by simp
  then show ?thesis by (rule f)
qed

lemma JSON_parse_fuel:
  assumes "parse_value n (skip_ws s) = Some (v, r)" and "skip_ws r = []"
  shows "JSON_parse s = Inr v"
proof -
  have "2 * length (skip_ws s) \<le> Suc (2 * length s)"
    using length_skip_ws [of s] by simp
  from parse_value_fuel [OF assms(1) this] assms(2) show ?thesis
    by (simp add: JSON_parse_def)
qed

subsection \<open>Decimal digits\<close>

lemma nat_lt10:
  "(d::nat) < 10 \<Longrightarrow> d = 0 \<or> d = 1 \<or> d = 2 \<or> d = 3 \<or> d = 4 \<or> d = 5 \<or> d = 6 \<or> d = 7 \<or> d = 8 \<or> d = 9"
  by arith

lemma digit_char_lt10:
  "d < 10 \<Longrightarrow> is_digit (digit_char d) \<and> digit_val (digit_char d) = d"
proof -
  assume "d < 10"
  from nat_lt10 [OF this] show ?thesis
    by (elim disjE) (simp_all add: digit_char_def is_digit_def digit_val_def cu_def)
qed

lemma is_digit_show_nat: "c \<in> set (show_nat n) \<Longrightarrow> is_digit c"
proof (induction n rule: show_nat.induct)
  case (1 n)
  then show ?case
    by (subst (asm) (2) show_nat.simps) (auto simp: digit_char_lt10 split: if_splits)
qed

lemma show_nat_not_Nil: "show_nat n \<noteq> []"
  by (subst show_nat.simps) simp

lemma digits_val_snoc: "digits_val (ds @ [c]) = 10 * digits_val ds + digit_val c"
  by (simp add: digits_val_def)

lemma digits_val_show_nat: "digits_val (show_nat n) = n"
proof (induction n rule: show_nat.induct)
  case (1 n)
  show ?case
  proof (cases "n < 10")
    case True
    then show ?thesis
      by (subst show_nat.simps) (simp add: digits_val_def digit_char_lt10)
  next
    case False
    then have "digits_val (show_nat n) = 10 * (n div 10) + n mod 10"
      using 1 by (subst show_nat.simps) (simp add: digits_val_snoc digit_char_lt10)
    then show ?thesis by simp
  qed
qed

lemma hd_show_nat: "hd (show_nat n) = cu (CHR ''0'') \<Longrightarrow> show_nat n = (ascii ''0'')"
proof (induction n rule: show_nat.induct)
  case (1 n)
  show ?case
  proof (cases "n < 10")
    case True
    from nat_lt10 [OF this] show ?thesis using "1.prems"
      by (elim disjE) (simp_all add: show_nat.simps digit_char_def)
  next
    case False
    then have eq: "show_nat n = show_nat (n div 10) @ [digit_char (n mod 10)]"
      by (subst show_nat.simps) simp
    with "1.prems" have "hd (show_nat (n div 10)) = cu (CHR ''0'')"
      by (simp add: show_nat_not_Nil)
    with 1 False have "show_nat (n div 10) = (ascii ''0'')" by simp
    then have "digits_val (show_nat (n div 10)) = 0" by (simp add: digits_val_def digit_val_def cu_def)
    then have "n div 10 = 0" by (simp add: digits_val_show_nat)
    with False show ?thesis by simp
  qed
qed

lemma takeWhile_digits:
  "num_end rest \<Longrightarrow> takeWhile is_digit (show_nat k @ rest) = show_nat k"
  by (cases rest) (auto simp: num_end_def takeWhile_append is_digit_show_nat)

lemma dropWhile_digits:
  "num_end rest \<Longrightarrow> dropWhile is_digit (show_nat k @ rest) = rest"
  by (cases rest) (auto simp: num_end_def dropWhile_append is_digit_show_nat)

lemma parse_int_part_show_nat:
  assumes "num_end rest"
  shows "parse_int_part (show_nat k @ rest) = Some (show_nat k, rest)"
proof (cases "show_nat k")
  case Nil
  then show ?thesis by (simp add: show_nat_not_Nil)
next
  case (Cons c cs)
  show ?thesis
  proof (cases "c = cu (CHR ''0'')")
    case True
    with Cons have "show_nat k = (ascii ''0'')" using hd_show_nat [of k] by simp
    then show ?thesis by (simp add: parse_int_part_def)
  next
    case False
    have "is_digit c" using Cons is_digit_show_nat [of c k] by simp
    with False Cons show ?thesis
      using takeWhile_digits [OF assms, of k] dropWhile_digits [OF assms, of k]
      by (simp add: parse_int_part_def)
  qed
qed

lemma parse_frac_end: "num_end rest \<Longrightarrow> parse_frac rest = Some ([], rest)"
  by (cases rest) (auto simp: num_end_def parse_frac_def)

lemma parse_exp_end: "num_end rest \<Longrightarrow> parse_exp rest = Some (0, rest)"
  by (cases rest) (auto simp: num_end_def parse_exp_def)

lemma hd_show_nat_not_minus: "show_nat k = c # cs \<Longrightarrow> c \<noteq> cu (CHR ''-'')"
  using is_digit_show_nat [of c k] by (auto simp: is_digit_def cu_def)

lemma parse_sign_show_nat: "parse_sign (show_nat k @ rest) = (False, show_nat k @ rest)"
  by (cases "show_nat k") (auto simp: parse_sign_def show_nat_not_Nil dest: hd_show_nat_not_minus)

lemma parse_number_show_int:
  assumes "num_end rest"
  shows "parse_number (show_int i @ rest) = Some (JNum i 0, rest)"
proof (cases "i < 0")
  case True
  then have "parse_sign (show_int i @ rest) = (True, show_nat (nat (- i)) @ rest)"
    by (simp add: show_int_def parse_sign_def)
  with True show ?thesis
    by (simp add: parse_number_def parse_int_part_show_nat [OF assms] parse_frac_end [OF assms]
        parse_exp_end [OF assms] decimal_def digits_val_show_nat)
next
  case False
  then have "parse_sign (show_int i @ rest) = (False, show_nat (nat i) @ rest)"
    by (simp add: show_int_def parse_sign_show_nat)
  with False show ?thesis
    by (simp add: parse_number_def parse_int_part_show_nat [OF assms] parse_frac_end [OF assms]
        parse_exp_end [OF assms] decimal_def digits_val_show_nat)
qed

subsection \<open>Strings\<close>

lemma nat_lt16:
  "(d::nat) < 16 \<Longrightarrow> d = 0 \<or> d = 1 \<or> d = 2 \<or> d = 3 \<or> d = 4 \<or> d = 5 \<or> d = 6 \<or> d = 7 \<or> d = 8 \<or> d = 9
     \<or> d = 10 \<or> d = 11 \<or> d = 12 \<or> d = 13 \<or> d = 14 \<or> d = 15"
  by arith

lemma hex_val_digit_char: "d < 16 \<Longrightarrow> hex_val (digit_char d) = Some d"
proof -
  assume "d < 16"
  from nat_lt16 [OF this] show ?thesis
    by (elim disjE) (simp_all add: digit_char_def hex_val_def cu_def)
qed

lemma hex_digits_value:
  fixes c :: nat
  assumes "c < 65536"
  shows "((c div 4096 mod 16 * 16 + c div 256 mod 16) * 16 + c div 16 mod 16) * 16 + c mod 16 = c"
proof -
  define A B C D where "A = c div 4096" and "B = c div 256 mod 16" and "C = c div 16 mod 16"
    and "D = c mod 16"
  have a: "c div 4096 mod 16 = A" using assms by (simp add: A_def)
  have b: "c mod 256 = 16 * C + D"
    using mod_mult2_eq [of c 16 16] by (simp add: C_def D_def)
  have d: "c mod 4096 = 256 * B + c mod 256"
    using mod_mult2_eq [of c 256 16] by (simp add: B_def)
  have e: "c = 4096 * A + c mod 4096" by (simp add: A_def)
  have "((A * 16 + B) * 16 + C) * 16 + D = 4096 * A + (256 * B + (16 * C + D))" by simp
  also have "\<dots> = c" using b d e by simp
  finally show ?thesis by (simp only: a B_def C_def D_def)
qed

lemma hex4_unicode:
  assumes "c < 65536"
  shows "hex4 (digit_char (c div 4096 mod 16)) (digit_char (c div 256 mod 16))
           (digit_char (c div 16 mod 16)) (digit_char (c mod 16)) = Some c"
proof -
  have h: "hex_val (digit_char (x mod 16)) = Some (x mod 16)" for x
    by (rule hex_val_digit_char) simp
  show ?thesis
    unfolding hex4_def h by (simp only: prod.case option.case hex_digits_value [OF assms])
qed

lemma parse_chars_unicode_escape:
  "c < 65536 \<Longrightarrow> parse_chars (unicode_escape c @ t) = map_option (apfst ((#) c)) (parse_chars t)"
  using hex4_unicode [of c] by (simp add: unicode_escape_def)

lemma parse_chars_raw:
  "c \<noteq> cu (CHR 0x22) \<Longrightarrow> c \<noteq> cu (CHR 0x5C) \<Longrightarrow> \<not> c < 0x20 \<Longrightarrow>
   parse_chars (c # t) = map_option (apfst ((#) c)) (parse_chars t)"
  by simp

lemma surrogate_raw:
  "is_leading c \<or> is_trailing c \<Longrightarrow> c \<noteq> cu (CHR 0x22) \<and> c \<noteq> cu (CHR 0x5C) \<and> \<not> c < 0x20"
  by (auto simp: is_leading_def is_trailing_def cu_def)

lemma parse_chars_escape:
  "parse_chars (escape_char c @ t) = map_option (apfst ((#) c)) (parse_chars t)"
proof -
  consider "c = cu (CHR 0x08)" | "c = cu (CHR 0x09)" | "c = cu (CHR 0x0A)" | "c = cu (CHR 0x0C)"
    | "c = cu (CHR 0x0D)" | "c = cu (CHR 0x22)" | "c = cu (CHR 0x5C)"
    | "c \<noteq> cu (CHR 0x08)" "c \<noteq> cu (CHR 0x09)" "c \<noteq> cu (CHR 0x0A)" "c \<noteq> cu (CHR 0x0C)"
      "c \<noteq> cu (CHR 0x0D)" "c \<noteq> cu (CHR 0x22)" "c \<noteq> cu (CHR 0x5C)"
      "c < 0x20 \<or> is_leading c \<or> is_trailing c"
    | "c \<noteq> cu (CHR 0x08)" "c \<noteq> cu (CHR 0x09)" "c \<noteq> cu (CHR 0x0A)" "c \<noteq> cu (CHR 0x0C)"
      "c \<noteq> cu (CHR 0x0D)" "c \<noteq> cu (CHR 0x22)" "c \<noteq> cu (CHR 0x5C)"
      "\<not> (c < 0x20 \<or> is_leading c \<or> is_trailing c)"
    by blast
  then show ?thesis
  proof cases
    case 8
    from 8(8) have "c < 65536" by (auto simp: is_leading_def is_trailing_def)
    from parse_chars_unicode_escape [OF this] 8 show ?thesis
      by (simp add: escape_char_def)
  next
    case 9
    then show ?thesis by (simp add: escape_char_def)
  qed (simp_all add: escape_char_def unescape_def cu_def)
qed

lemma parse_chars_quote:
  "parse_chars (escape s @ cu (CHR 0x22) # rest) = Some (s, rest)"
proof (induction s rule: escape.induct)
  case 1
  show ?case by simp
next
  case (2 c)
  show ?case by (simp add: parse_chars_escape)
next
  case (3 c d s)
  show ?case
  proof (cases "is_leading c \<and> is_trailing d")
    case True
    with surrogate_raw [of c] surrogate_raw [of d] "3.IH"(1) show ?thesis
      by (simp del: parse_chars.simps add: parse_chars_raw)
  next
    case False
    with "3.IH"(2) show ?thesis
      by (auto simp del: parse_chars.simps simp add: parse_chars_escape)
  qed
qed

subsection \<open>Posts and arrays of posts\<close>

lemma skip_ws_Cons: "\<not> is_ws c \<Longrightarrow> skip_ws (c # s) = c # s"
  by (simp add: skip_ws_def)

lemma is_digit_not_ws: "is_digit c \<Longrightarrow> \<not> is_ws c"
  by (auto simp: is_digit_def cu_def is_ws_def)

lemma show_int_Cons:
  "\<exists>c cs. show_int i = c # cs \<and> (c = cu (CHR ''-'') \<or> is_digit c)"
proof (cases "i < 0")
  case True
  then show ?thesis by (simp add: show_int_def)
next
  case False
  obtain c cs where "show_nat (nat i) = c # cs"
    using show_nat_not_Nil [of "nat i"] by (cases "show_nat (nat i)") auto
  moreover from this have "is_digit c" using is_digit_show_nat [of c "nat i"] by simp
  ultimately show ?thesis using False by (simp add: show_int_def)
qed

lemma parse_value_show_int:
  assumes "num_end rest"
  shows "parse_value (Suc n) (show_int i @ rest) = Some (JNum i 0, rest)"
proof -
  obtain c cs where eq: "show_int i = c # cs" and c: "c = cu (CHR ''-'') \<or> is_digit c"
    using show_int_Cons by blast
  from c have "c \<noteq> cu (CHR ''['') \<and> c \<noteq> cu (CHR ''{'') \<and> c \<noteq> cu (CHR 0x22) \<and> c \<noteq> cu (CHR ''t'') \<and> c \<noteq> cu (CHR ''f'')
      \<and> c \<noteq> cu (CHR ''n'')"
    by (auto simp: is_digit_def cu_def)
  then have "parse_value (Suc n) (c # cs @ rest) = parse_number (c # cs @ rest)"
    by (simp add: parse_value.simps)
  then show ?thesis
    using parse_number_show_int [OF assms, of i] by (simp add: eq)
qed

lemma parse_value_quote:
  "parse_value (Suc n) (quote s @ rest) = Some (JStr s, rest)"
  by (simp add: quote_def parse_chars_quote parse_value.simps)

lemma parse_chars_tl_quote:
  "parse_chars (tl (quote s) @ rest) = Some (s, rest)"
  by (simp add: quote_def parse_chars_quote)

lemma num_end_comma [simp]: "num_end (cu (CHR '','') # s)"
  by (simp add: num_end_def is_digit_def cu_def)

lemma ws_simps [simp]:
  "\<not> is_ws (cu (CHR '',''))" "\<not> is_ws (cu (CHR '':''))" "\<not> is_ws (cu (CHR 0x22))" "\<not> is_ws (cu (CHR ''}''))"
  "\<not> is_ws (cu (CHR '']''))" "\<not> is_ws (cu (CHR ''{''))" "\<not> is_ws (cu (CHR ''[''))"
  by (simp_all add: is_ws_def)

lemma skip_ws_show_int: "skip_ws (show_int i @ rest) = show_int i @ rest"
proof -
  obtain c cs where eq: "show_int i = c # cs" and c: "c = cu (CHR ''-'') \<or> is_digit c"
    using show_int_Cons by blast
  from c have "\<not> is_ws c" by (auto simp: is_ws_def dest: is_digit_not_ws)
  then show ?thesis by (simp add: eq skip_ws_Cons)
qed

lemma skip_ws_quote: "skip_ws (quote s @ rest) = quote s @ rest"
  by (simp add: quote_def skip_ws_Cons)

lemma JSON_stringify_post: "JSON_stringify (post_value p) = stringify_post p"
  by (simp add: post_value_def stringify_post_def show_num_def)

lemma parse_members_comma:
  assumes "parse_value n vs = Some (v, cu (CHR '','') # r)" and "skip_ws vs = vs"
  shows "parse_members (Suc n) acc (quote k @ cu (CHR '':'') # vs) = parse_members n (obj_put k v acc) r"
proof -
  have "skip_ws (quote k @ cu (CHR '':'') # vs) = cu (CHR 0x22) # tl (quote k) @ cu (CHR '':'') # vs"
    by (simp add: skip_ws_quote) (simp add: quote_def)
  then show ?thesis
    using assms by (simp add: parse_chars_tl_quote skip_ws_Cons parse_members.simps)
qed

lemma parse_members_close:
  assumes "parse_value n vs = Some (v, cu (CHR ''}'') # r)" and "skip_ws vs = vs"
  shows "parse_members (Suc n) acc (quote k @ cu (CHR '':'') # vs) = Some (obj_put k v acc, r)"
proof -
  have "skip_ws (quote k @ cu (CHR '':'') # vs) = cu (CHR 0x22) # tl (quote k) @ cu (CHR '':'') # vs"
    by (simp add: skip_ws_quote) (simp add: quote_def)
  then show ?thesis
    using assms by (simp add: parse_chars_tl_quote skip_ws_Cons parse_members.simps)
qed

lemma parse_value_post:
  "parse_value (Suc (Suc (Suc (Suc (Suc n))))) (stringify_post p @ rest) = Some (post_value p, rest)"
proof -
  define s3 where "s3 = quote (ascii ''body'') @ cu (CHR '':'') # quote (body p) @ cu (CHR ''}'') # rest"
  define s2 where "s2 = quote (ascii ''title'') @ cu (CHR '':'') # quote (title p) @ cu (CHR '','') # s3"
  define s1 where "s1 = quote (ascii ''id'') @ cu (CHR '':'') # show_int (post_id p) @ cu (CHR '','') # s2"
  have m3: "parse_members (Suc (Suc n)) acc s3 = Some (obj_put (ascii ''body'') (JStr (body p)) acc, rest)"
    for acc
    unfolding s3_def
    by (rule parse_members_close) (simp_all add: parse_value_quote skip_ws_quote)
  have m2: "parse_members (Suc (Suc (Suc n))) acc s2
      = parse_members (Suc (Suc n)) (obj_put (ascii ''title'') (JStr (title p)) acc) s3" for acc
    unfolding s2_def
    by (rule parse_members_comma) (simp_all add: parse_value_quote skip_ws_quote)
  have m1: "parse_members (Suc (Suc (Suc (Suc n)))) acc s1
      = parse_members (Suc (Suc (Suc n))) (obj_put (ascii ''id'') (JNum (post_id p) 0) acc) s2" for acc
    unfolding s1_def
    by (rule parse_members_comma) (simp_all add: parse_value_show_int skip_ws_show_int)
  have "parse_members (Suc (Suc (Suc (Suc n)))) [] s1 = Some (case post_value p of JObj ms \<Rightarrow> ms, rest)"
    by (simp add: m1 m2 m3 post_value_def)
  moreover have "skip_ws s1 = cu (CHR 0x22) # tl s1"
    unfolding s1_def by (simp add: skip_ws_quote) (simp add: quote_def)
  moreover have "stringify_post p @ rest = cu (CHR ''{'') # s1"
    by (simp add: stringify_post_def s1_def s2_def s3_def)
  ultimately show ?thesis
    by (simp add: post_value_def parse_value.simps)
qed

lemma comma_sep_Cons:
  "xs \<noteq> [] \<Longrightarrow> comma_sep (x # xs) = x @ cu (CHR '','') # comma_sep xs"
  by (cases xs) simp_all

lemma parse_value_post_ge:
  assumes "5 \<le> n"
  shows "parse_value n (stringify_post p @ rest) = Some (post_value p, rest)"
proof -
  from assms obtain m where "n = 5 + m" using le_Suc_ex by blast
  then have "n = Suc (Suc (Suc (Suc (Suc m))))" by simp
  then show ?thesis by (simp only: parse_value_post)
qed

lemma parse_elements_last:
  assumes "parse_value n (skip_ws s) = Some (v, r)" and "skip_ws r = cu (CHR '']'') # r'"
  shows "parse_elements (Suc n) s = Some ([v], r')"
  using assms by (simp add: parse_elements.simps)

lemma parse_elements_next:
  assumes "parse_value n (skip_ws s) = Some (v, r)" and "skip_ws r = cu (CHR '','') # r'"
  shows "parse_elements (Suc n) s = map_option (apfst ((#) v)) (parse_elements n r')"
  using assms by (simp add: parse_elements.simps)

lemma parse_elements_posts:
  "ps \<noteq> [] \<Longrightarrow>
   parse_elements (length ps + 5 + n) (comma_sep (map stringify_post ps) @ cu (CHR '']'') # rest)
     = Some (map post_value ps, rest)"
proof (induction ps)
  case Nil
  then show ?case by simp
next
  case (Cons p ps)
  let ?f = "length ps + 5 + n"
  have fuel: "length (p # ps) + 5 + n = Suc ?f" by simp
  have sk: "skip_ws (stringify_post p @ t) = stringify_post p @ t" for t
    by (simp add: stringify_post_def skip_ws_Cons)
  have pv: "parse_value ?f (skip_ws (stringify_post p @ t)) = Some (post_value p, t)" for t
    unfolding sk by (rule parse_value_post_ge) simp
  show ?case
  proof (cases "ps = []")
    case True
    have "parse_elements (Suc ?f) (stringify_post p @ cu (CHR '']'') # rest) = Some ([post_value p], rest)"
      by (rule parse_elements_last [OF pv]) (simp add: skip_ws_Cons)
    with True show ?thesis unfolding fuel by simp
  next
    case False
    let ?t = "comma_sep (map stringify_post ps) @ cu (CHR '']'') # rest"
    have "parse_elements (Suc ?f) (stringify_post p @ cu (CHR '','') # ?t)
        = map_option (apfst ((#) (post_value p))) (parse_elements ?f ?t)"
      by (rule parse_elements_next [OF pv]) (simp add: skip_ws_Cons)
    with False Cons.IH show ?thesis
      unfolding fuel by (simp add: comma_sep_Cons)
  qed
qed

lemma length_comma_sep:
  "\<forall>x \<in> set xs. x \<noteq> [] \<Longrightarrow> length xs \<le> length (comma_sep xs)"
proof (induction xs rule: comma_sep.induct)
  case (2 x)
  then show ?case by (cases x) simp_all
qed simp_all

lemma stringify_post_not_Nil: "stringify_post p \<noteq> []"
  by (simp add: stringify_post_def)

lemma JSON_stringify_posts:
  "JSON_stringify (JArr (map post_value ps)) = cu (CHR ''['') # comma_sep (map stringify_post ps) @ (ascii '']'')"
  by (simp add: JSON_stringify_post comp_def)

lemma parse_value_array:
  assumes "skip_ws cs = d # r" and "d \<noteq> cu (CHR '']'')"
  shows "parse_value (Suc n) (cu (CHR ''['') # cs) = map_option (apfst JArr) (parse_elements n cs)"
  using assms by (simp add: parse_value.simps)

lemma JSON_parse_whole:
  assumes "parse_value (Suc (2 * length s)) s = Some (v, [])" and "skip_ws s = s"
  shows "JSON_parse s = Inr v"
  using assms by (simp add: JSON_parse_def skip_ws_def)

lemma JSON_parse_posts:
  "JSON_parse (JSON_stringify (JArr (map post_value ps))) = Inr (JArr (map post_value ps))"
proof (cases "ps = []")
  case True
  have *: "parse_value (Suc n) (ascii ''[]'') = Some (JArr [], [])" for n
    by (simp add: parse_value.simps skip_ws_Cons)
  have "JSON_parse (ascii ''[]'') = Inr (JArr [])"
    by (rule JSON_parse_whole [OF *]) (simp add: skip_ws_Cons)
  with True show ?thesis by simp
next
  case False
  let ?body = "comma_sep (map stringify_post ps)"
  let ?s = "cu (CHR ''['') # ?body @ (ascii '']'')"
  have "length ps \<le> length ?body"
    using length_comma_sep [of "map stringify_post ps"] by (simp add: stringify_post_not_Nil)
  then have "length ps + 5 \<le> 2 * length ?s"
    using False by (cases ps) simp_all
  then obtain n where n: "2 * length ?s = length ps + 5 + n"
    using le_Suc_ex by blast
  obtain p ps' where ps: "ps = p # ps'" using False by (cases ps) auto
  have "\<exists>cs. ?body = cu (CHR ''{'') # cs"
    by (cases ps') (simp_all add: ps stringify_post_def)
  then obtain cs where body: "?body = cu (CHR ''{'') # cs" by blast
  have sk: "skip_ws (?body @ (ascii '']'')) = cu (CHR ''{'') # cs @ (ascii '']'')"
    unfolding body by (simp add: skip_ws_Cons)
  have el: "parse_elements (length ps + 5 + n) (?body @ (ascii '']'')) = Some (map post_value ps, [])"
    using parse_elements_posts [OF False, of n "[]"] by simp
  have "parse_value (Suc (length ps + 5 + n)) ?s
      = map_option (apfst JArr) (parse_elements (length ps + 5 + n) (?body @ (ascii '']'')))"
    by (rule parse_value_array [OF sk]) simp
  then have "parse_value (Suc (2 * length ?s)) ?s = Some (JArr (map post_value ps), [])"
    unfolding n el by simp
  then have "JSON_parse ?s = Inr (JArr (map post_value ps))"
    by (rule JSON_parse_whole) (simp add: skip_ws_Cons)
  then show ?thesis
    unfolding JSON_stringify_posts .
qed

text \<open>From here on a literal stays a literal.\<close>

declare ascii_simps [simp del]

section \<open>The round trip\<close>

lemma post_value_inj: "inj post_value"
  by (rule injI) (simp add: post_value_def)

lemma JSON_parse_empty_array: "JSON_parse (ascii ''[]'') = Inr (JArr [])"
  using JSON_parse_posts [of "[]"] by (simp add: ascii_simps)

lemma read_collection_setItem:
  "read_collection (setItem st (ascii ''posts'') (JSON_stringify (JArr (map post_value ps))))
     = Inr (JArr (map post_value ps))"
  by (simp add: read_collection_def getItem_def setItem_def JSON_parse_posts
      del: JSON_stringify.simps)

text \<open>
  Claim C9. Round trip: for every collection of posts, \<^verbatim>\<open>JSON.parse\<close> of its
  \<^verbatim>\<open>JSON.stringify\<close> is the collection again, and so is what the mutation reads back
  from a store the collection was written to. Distinct posts are distinct values
  (\<open>post_value\<close> is injective), so the sequence of posts is the original one.
\<close>

theorem posts_roundtrip:
  "JSON_parse (JSON_stringify (JArr (map post_value ps))) = Inr (JArr (map post_value ps))
   \<and> read_collection (setItem st (ascii ''posts'') (JSON_stringify (JArr (map post_value ps))))
       = Inr (JArr (map post_value ps))
   \<and> inj post_value"
  by (simp only: JSON_parse_posts read_collection_setItem post_value_inj)

section \<open>Adding posts\<close>

lemma mutationFn_appends:
  assumes "read_collection st = Inr (JArr xs)"
  shows "useAddPost_mutationFn p st
           = (Inr p, setItem st (ascii ''posts'') (JSON_stringify (JArr (xs @ [post_value p]))))"
  using assms by (simp add: useAddPost_mutationFn_def push_def)

lemma add_posts_from:
  assumes "read_collection st = Inr (JArr (map post_value qs))"
  shows "fst (add_posts ps st) = Inr () \<and>
         read_collection (snd (add_posts ps st)) = Inr (JArr (map post_value (qs @ ps)))"
  using assms
proof (induction ps arbitrary: st qs)
  case Nil
  then show ?case by simp
next
  case (Cons p ps)
  let ?st' = "setItem st (ascii ''posts'') (JSON_stringify (JArr (map post_value (qs @ [p]))))"
  have step: "useAddPost_mutationFn p st = (Inr p, ?st')"
    using mutationFn_appends [OF Cons.prems, of p] by simp
  have "read_collection ?st' = Inr (JArr (map post_value (qs @ [p])))"
    by (rule read_collection_setItem)
  from Cons.IH [OF this] show ?case
    by (simp add: step)
qed

lemma read_collection_empty:
  "getItem st (ascii ''posts'') = None \<or> getItem st (ascii ''posts'') = Some (ascii ''[]'') \<Longrightarrow>
   read_collection st = Inr (JArr [])"
  by (auto simp: read_collection_def JSON_parse_empty_array)

text \<open>
  Claim C1. From a store whose \<^verbatim>\<open>"posts"\<close> key is absent or holds \<^verbatim>\<open>"[]"\<close>, every
  sequence of N adds succeeds, and the collection stored afterwards is the N posts in
  the order they were added: its length is N.
\<close>

theorem add_posts_length:
  assumes "getItem st (ascii ''posts'') = None \<or> getItem st (ascii ''posts'') = Some (ascii ''[]'')"
  shows "fst (add_posts ps st) = Inr () \<and>
         read_collection (snd (add_posts ps st)) = Inr (JArr (map post_value ps)) \<and>
         stored_length (snd (add_posts ps st)) = Some (length ps)"
proof -
  have "read_collection st = Inr (JArr (map post_value []))"
    using read_collection_empty [OF assms] by simp
  from add_posts_from [OF this, of ps] show ?thesis
    by (simp add: stored_length_def)
qed

theorem add_posts_length_witness:
  "getItem Map.empty (ascii ''posts'') = None \<and>
   fst (add_posts [\<lparr>post_id = 1, title = (ascii ''a''), body = (ascii ''b'')\<rparr>,
                   \<lparr>post_id = 2, title = (ascii ''hello 2''), body = (ascii ''yoo'')\<rparr>] Map.empty) = Inr () \<and>
   stored_length (snd (add_posts [\<lparr>post_id = 1, title = (ascii ''a''), body = (ascii ''b'')\<rparr>,
                   \<lparr>post_id = 2, title = (ascii ''hello 2''), body = (ascii ''yoo'')\<rparr>] Map.empty)) = Some 2"
  using add_posts_length [of Map.empty "[\<lparr>post_id = 1, title = (ascii ''a''), body = (ascii ''b'')\<rparr>,
                   \<lparr>post_id = 2, title = (ascii ''hello 2''), body = (ascii ''yoo'')\<rparr>]"]
  by (simp add: getItem_def)

text \<open>
  Claim C2. After a successful add, the entry of the cache under \<^verbatim>\<open>["posts"]\<close> is the
  list cached before (the empty list when there was no entry) with the new post at its
  end. The new cache is what \<open>useAddPost_onSuccess\<close> computes from the post and the
  old cache: the storage is not among its arguments.
\<close>

lemma append_post_cached:
  "append_post p None = Inr (JArr [post_value p])"
  "append_post p (Some (JArr xs)) = Inr (JArr (xs @ [post_value p]))"
  by (simp_all add: append_post_def spread_def)

theorem add_post_optimistic_update:
  assumes "fst (useAddPost_mutate p (st, c)) = Inr q"
    and "c [JStr (ascii ''posts'')] = None \<and> xs = [] \<or> c [JStr (ascii ''posts'')] = Some (JArr xs)"
  shows "q = p
         \<and> snd (snd (useAddPost_mutate p (st, c)))
             = c([JStr (ascii ''posts'')] \<mapsto> JArr (xs @ [post_value p]))
         \<and> useAddPost_onSuccess p c = Inr (snd (snd (useAddPost_mutate p (st, c))))"
proof -
  from assms(2) have upd: "append_post p (c [JStr (ascii ''posts'')]) = Inr (JArr (xs @ [post_value p]))"
    by (auto simp: append_post_cached)
  from assms(1) obtain st' where m: "useAddPost_mutationFn p st = (Inr p, st')" and "q = p"
    by (auto simp: useAddPost_mutate_def useAddPost_mutationFn_def
        split: sum.splits prod.splits)
  then show ?thesis
    by (simp add: useAddPost_mutate_def useAddPost_onSuccess_def setQueryData_def upd)
qed

text \<open>
  The cache holds one post and the storage none: the add succeeds, and the cached list
  has both posts, whatever the storage holds.
\<close>

theorem add_post_optimistic_update_witness:
  "fst (useAddPost_mutate \<lparr>post_id = 2, title = (ascii ''hello 2''), body = (ascii ''yoo'')\<rparr>
         (Map.empty,
          [[JStr (ascii ''posts'')] \<mapsto> JArr [post_value \<lparr>post_id = 1, title = (ascii ''a''), body = (ascii ''b'')\<rparr>]]))
     = Inr \<lparr>post_id = 2, title = (ascii ''hello 2''), body = (ascii ''yoo'')\<rparr>
   \<and> snd (snd (useAddPost_mutate \<lparr>post_id = 2, title = (ascii ''hello 2''), body = (ascii ''yoo'')\<rparr>
         (Map.empty,
          [[JStr (ascii ''posts'')] \<mapsto> JArr [post_value \<lparr>post_id = 1, title = (ascii ''a''), body = (ascii ''b'')\<rparr>]])))
       [JStr (ascii ''posts'')]
     = Some (JArr [post_value \<lparr>post_id = 1, title = (ascii ''a''), body = (ascii ''b'')\<rparr>,
                   post_value \<lparr>post_id = 2, title = (ascii ''hello 2''), body = (ascii ''yoo'')\<rparr>])"
proof -
  let ?p = "\<lparr>post_id = 2, title = (ascii ''hello 2''), body = (ascii ''yoo'')\<rparr>"
  let ?c = "[[JStr (ascii ''posts'')] \<mapsto> JArr [post_value \<lparr>post_id = 1, title = (ascii ''a''), body = (ascii ''b'')\<rparr>]]"
  have r: "read_collection Map.empty = Inr (JArr [])"
    by (simp add: read_collection_def getItem_def JSON_parse_empty_array)
  have ok: "fst (useAddPost_mutate ?p (Map.empty, ?c)) = Inr ?p"
    by (simp add: useAddPost_mutate_def useAddPost_mutationFn_def r push_def
        useAddPost_onSuccess_def setQueryData_def append_post_def spread_def)
  from add_post_optimistic_update [of ?p Map.empty ?c ?p
      "[post_value \<lparr>post_id = 1, title = (ascii ''a''), body = (ascii ''b'')\<rparr>]", OF ok]
  show ?thesis using ok by simp
qed

text \<open>
  Claim C8. An add, fulfilled or rejected, leaves every entry of the cache under a key
  \<^verbatim>\<open>["post", id]\<close> as it was; it changes the entry under \<^verbatim>\<open>["posts"]\<close> only
  (\<open>useAddPost_mutate_frame\<close>).
\<close>

lemma setQueryData_frame:
  "setQueryData c k f = Inr c' \<Longrightarrow> k' \<noteq> k \<Longrightarrow> c' k' = c k'"
  by (auto simp: setQueryData_def split: sum.splits)

lemma useAddPost_mutate_frame:
  "k \<noteq> [JStr (ascii ''posts'')] \<Longrightarrow> snd (snd (useAddPost_mutate p (st, c))) k = c k"
  by (auto simp: useAddPost_mutate_def useAddPost_onSuccess_def split: sum.splits prod.splits
      dest: setQueryData_frame)

theorem add_post_keeps_post_entries:
  "snd (snd (useAddPost_mutate p (st, c))) (usePost_queryKey i) = c (usePost_queryKey i)"
  by (rule useAddPost_mutate_frame) (simp add: usePost_queryKey_def)

section \<open>Listing posts\<close>

text \<open>
  Claim C3. When the key \<^verbatim>\<open>"posts"\<close> is absent, \<open>usePosts_queryFn\<close> is fulfilled with
  the empty list and leaves the storage with \<^verbatim>\<open>"[]"\<close> under the key, which is the
  serialisation of the empty collection.
\<close>

theorem usePosts_absent_initialises:
  assumes "getItem st (ascii ''posts'') = None"
  shows "usePosts_queryFn st = (Inr (JArr []), setItem st (ascii ''posts'') (ascii ''[]''))
         \<and> getItem (snd (usePosts_queryFn st)) (ascii ''posts'') = Some (ascii ''[]'')
         \<and> JSON_stringify (JArr []) = ascii ''[]''"
  using assms by (simp add: usePosts_queryFn_def getItem_def setItem_def ascii_simps)

theorem usePosts_absent_initialises_witness:
  "getItem Map.empty (ascii ''posts'') = None
   \<and> fst (usePosts_queryFn Map.empty) = Inr (JArr [])
   \<and> getItem (snd (usePosts_queryFn Map.empty)) (ascii ''posts'') = Some (ascii ''[]'')"
  using usePosts_absent_initialises [of Map.empty] by (simp add: getItem_def setItem_def)


lemma JSON_parse_Nil: "JSON_parse [] = Inl (SyntaxError [])"
  by (simp add: JSON_parse_def skip_ws_def parse_value.simps)


text \<open>
  Both hold of every storage: the empty string under the key is treated as the absent
  key, and any other text that is JSON, a collection or not, ends in success.
\<close>

lemma usePosts_empty_text:
  "getItem st (ascii ''posts'') = Some [] \<Longrightarrow>
   usePosts_queryFn st = (Inr (JArr []), setItem st (ascii ''posts'') (ascii ''[]''))"
  by (simp add: usePosts_queryFn_def)

lemma usePosts_valid_text:
  "getItem st (ascii ''posts'') = Some s \<Longrightarrow> JSON_parse s = Inr v \<Longrightarrow>
   snd (usePosts_queryFn st) = st \<and> status (usePosts st) = StatusSuccess"
  by (auto simp: usePosts_queryFn_def usePosts_def useQuery_def JSON_parse_Nil)



section \<open>Getting one post\<close>

lemma get_id_post: "get_id (post_value p) = Inr (Some (JNum (post_id p) 0))"
  by (simp add: get_id_def post_value_def)

lemma find_post_absent:
  "postId \<notin> post_id ` set ps \<Longrightarrow> find_post postId (map post_value ps) = Inr None"
  by (induction ps) (auto simp: get_id_post)

lemma usePost_queryFn_not_found:
  assumes "getItem st (ascii ''posts'') = Some s"
    and "JSON_parse s = Inr (JArr (map post_value ps))"
    and "postId \<notin> post_id ` set ps"
  shows "usePost_queryFn postId st = (Inr None, st)"
proof -
  from assms(2) have "s \<noteq> []" by (auto simp: JSON_parse_Nil)
  with assms show ?thesis
    by (simp add: usePost_queryFn_def find_post_absent)
qed

text \<open>
  Claim C4, as stated, fails. With the one post of id 1 stored and the id 2 asked for,
  the query function is fulfilled with \<^verbatim>\<open>undefined\<close>, and the library, which takes no
  \<^verbatim>\<open>undefined\<close> for data, ends the operation in status \<^verbatim>\<open>error\<close>, not in success.
\<close>

theorem usePost_not_found_counterexample:
  \<open>fst (usePost_queryFn 2 [ascii ''posts'' \<mapsto> ascii ''[{"id":1,"title":"a","body":"b"}]'']) = Inr None
   \<and> usePost_result 2 [ascii ''posts'' \<mapsto> ascii ''[{"id":1,"title":"a","body":"b"}]'']
       = \<lparr>status = StatusError, data = None, err = Some (UndefinedData (usePost_queryKey 2))\<rparr>
   \<and> status (usePost_result 2 [ascii ''posts'' \<mapsto> ascii ''[{"id":1,"title":"a","body":"b"}]''])
       \<noteq> StatusSuccess\<close>
proof -
  let ?s = \<open>ascii ''[{"id":1,"title":"a","body":"b"}]''\<close>
  have g: "getItem [ascii ''posts'' \<mapsto> ?s] (ascii ''posts'') = Some ?s" by (simp add: getItem_def)
  have p: "JSON_parse ?s
      = Inr (JArr (map post_value [\<lparr>post_id = 1, title = ascii ''a'', body = ascii ''b''\<rparr>]))"
    by code_simp
  have n: "2 \<notin> post_id ` set [\<lparr>post_id = 1, title = ascii ''a'', body = ascii ''b''\<rparr>]" by simp
  from usePost_queryFn_not_found [OF g p n] show ?thesis
    by (simp add: usePost_result_def usePost_def usePost_enabled_def useQuery_def)
qed

text \<open>
  Claim C4, amended. When the text under \<^verbatim>\<open>"posts"\<close> denotes a collection of posts
  whose ids are safe integers and none of them has the id asked for, the query function
  throws nothing: it is fulfilled with \<^verbatim>\<open>undefined\<close> and leaves the storage as it was.
  The operation does not end in success. For an id other than 0 the library fails the
  query, with its own error for \<^verbatim>\<open>undefined\<close> data, and the status is \<^verbatim>\<open>error\<close>; for
  the id 0 the query is disabled and stays \<^verbatim>\<open>pending\<close>.
\<close>

theorem usePost_not_found:
  assumes "getItem st (ascii ''posts'') = Some s"
    and "JSON_parse s = Inr (JArr (map post_value ps))"
    and "\<forall>p \<in> set ps. safe_integer (post_id p)"
    and "postId \<notin> post_id ` set ps"
  shows "usePost_queryFn postId st = (Inr None, st)
         \<and> usePost_result postId st
             = (if postId = 0 then \<lparr>status = StatusPending, data = None, err = None\<rparr>
                else \<lparr>status = StatusError, data = None,
                       err = Some (UndefinedData (usePost_queryKey postId))\<rparr>)
         \<and> status (usePost_result postId st) \<noteq> StatusSuccess"
  using usePost_queryFn_not_found [OF assms(1,2,4)]
  by (simp add: usePost_result_def usePost_def usePost_enabled_def useQuery_def)

theorem usePost_not_found_witness:
  \<open>getItem [ascii ''posts'' \<mapsto> ascii ''[{"id":1,"title":"a","body":"b"}]''] (ascii ''posts'')
     = Some (ascii ''[{"id":1,"title":"a","body":"b"}]'')
   \<and> JSON_parse (ascii ''[{"id":1,"title":"a","body":"b"}]'')
     = Inr (JArr (map post_value [\<lparr>post_id = 1, title = ascii ''a'', body = ascii ''b''\<rparr>]))
   \<and> safe_integer (post_id \<lparr>post_id = 1, title = ascii ''a'', body = ascii ''b''\<rparr>)
   \<and> 2 \<notin> post_id ` set [\<lparr>post_id = 1, title = ascii ''a'', body = ascii ''b''\<rparr>]
   \<and> usePost_queryFn 2 [ascii ''posts'' \<mapsto> ascii ''[{"id":1,"title":"a","body":"b"}]'']
     = (Inr None, [ascii ''posts'' \<mapsto> ascii ''[{"id":1,"title":"a","body":"b"}]''])
   \<and> status (usePost_result 2 [ascii ''posts'' \<mapsto> ascii ''[{"id":1,"title":"a","body":"b"}]''])
     = StatusError\<close>
proof -
  let ?s = \<open>ascii ''[{"id":1,"title":"a","body":"b"}]''\<close>
  have g: "getItem [ascii ''posts'' \<mapsto> ?s] (ascii ''posts'') = Some ?s" by (simp add: getItem_def)
  have p: "JSON_parse ?s
      = Inr (JArr (map post_value [\<lparr>post_id = 1, title = ascii ''a'', body = ascii ''b''\<rparr>]))"
    by code_simp
  have i: "\<forall>p \<in> set [\<lparr>post_id = 1, title = ascii ''a'', body = ascii ''b''\<rparr>]. safe_integer (post_id p)"
    by (simp add: safe_integer_def)
  have n: "2 \<notin> post_id ` set [\<lparr>post_id = 1, title = ascii ''a'', body = ascii ''b''\<rparr>]" by simp
  from usePost_not_found [OF g p i n] show ?thesis using g p n by (simp add: safe_integer_def)
qed

text \<open>
  Claim C6. When the key \<^verbatim>\<open>"posts"\<close> is absent, \<open>usePost_queryFn\<close> is rejected, for
  every id, with the error \<^verbatim>\<open>"No posts yet"\<close>, and the storage stays without the key.
\<close>

theorem usePost_absent_store_error:
  assumes "getItem st (ascii ''posts'') = None"
  shows "usePost_queryFn postId st = (Inl (Error (ascii ''No posts yet'')), st)"
  using assms by (simp add: usePost_queryFn_def)

theorem usePost_absent_store_error_witness:
  "getItem Map.empty (ascii ''posts'') = None
   \<and> usePost_queryFn 1 Map.empty = (Inl (Error (ascii ''No posts yet'')), Map.empty)"
  using usePost_absent_store_error [of Map.empty 1] by (simp add: getItem_def)

text \<open>
  Claim C7. The query of \<open>usePost\<close> does not run exactly when the id is falsy, which for
  an integer id is \<open>0\<close>: the id \<open>0\<close> disables it, and every other id, the \<open>- 1\<close> of
  "no selection" among them, runs the query function.
\<close>

theorem usePost_disabled_iff_falsy:
  "(usePost postId st = None) = (\<not> to_boolean (JNum postId 0))
   \<and> (\<not> to_boolean (JNum postId 0)) = (postId = 0)
   \<and> usePost 0 st = None
   \<and> usePost (- 1) st = Some (usePost_queryFn (- 1) st)
   \<and> usePost postId st = (if postId = 0 then None else Some (usePost_queryFn postId st))"
  by (simp add: usePost_def usePost_enabled_def)

section \<open>The generated post\<close>

lemma show_nat_inj: "show_nat m = show_nat n \<Longrightarrow> m = n"
  by (metis digits_val_show_nat)

lemma show_int_inj: "show_int i = show_int j \<Longrightarrow> i = j"
proof -
  assume eq: "show_int i = show_int j"
  have nm: "show_nat k \<noteq> cu (CHR ''-'') # t \<and> cu (CHR ''-'') # t \<noteq> show_nat k" for k t
    by (auto dest: hd_show_nat_not_minus hd_show_nat_not_minus [OF sym])
  show ?thesis
  proof (cases "i < 0")
    case True
    show ?thesis
    proof (cases "j < 0")
      case True
      with \<open>i < 0\<close> eq have "show_nat (nat (- i)) = show_nat (nat (- j))"
        by (simp add: show_int_def)
      then have "nat (- i) = nat (- j)" by (rule show_nat_inj)
      with True \<open>i < 0\<close> show ?thesis by simp
    next
      case False
      with \<open>i < 0\<close> eq nm [of "nat j"] show ?thesis by (simp add: show_int_def)
    qed
  next
    case False
    show ?thesis
    proof (cases "j < 0")
      case True
      with \<open>\<not> i < 0\<close> eq nm [of "nat i"] show ?thesis by (simp add: show_int_def)
    next
      case False
      with \<open>\<not> i < 0\<close> eq have "show_nat (nat i) = show_nat (nat j)"
        by (simp add: show_int_def)
      then have "nat i = nat j" by (rule show_nat_inj)
      with False \<open>\<not> i < 0\<close> show ?thesis by simp
    qed
  qed
qed

lemma bitlen_bound: "n < 2 ^ bitlen n"
proof (induction n rule: bitlen.induct)
  case (1 n)
  show ?case
  proof (cases "n = 0")
    case True
    then show ?thesis by simp
  next
    case False
    with 1 have "n div 2 < 2 ^ bitlen (n div 2)" by simp
    then have "n < 2 * 2 ^ bitlen (n div 2)" by linarith
    with False show ?thesis by (simp add: bitlen_pos)
  qed
qed

lemma bitlen_lower: "0 < n \<Longrightarrow> 2 ^ (bitlen n - 1) \<le> n"
proof (induction n rule: bitlen.induct)
  case (1 n)
  show ?case
  proof (cases "n div 2 = 0")
    case True
    with "1.prems" have "n = 1" by linarith
    then show ?thesis by (simp add: bitlen_pos)
  next
    case False
    with 1 have ih: "2 ^ (bitlen (n div 2) - 1) \<le> n div 2" by simp
    from False have "0 < bitlen (n div 2)" by (simp add: bitlen_pos)
    then have "bitlen n - 1 = Suc (bitlen (n div 2) - 1)"
      using "1.prems" by (simp add: bitlen_pos)
    with ih show ?thesis by simp
  qed
qed

lemma bitlen_le: "n < 2 ^ j \<Longrightarrow> bitlen n \<le> j"
proof (rule ccontr)
  assume n: "n < 2 ^ j" and "\<not> bitlen n \<le> j"
  then have j: "j \<le> bitlen n - 1" and "0 < bitlen n" by simp_all
  then have "0 < n" by (cases "n = 0") simp_all
  from bitlen_lower [OF this] have "2 ^ (bitlen n - 1) \<le> n" .
  moreover from j have "(2::nat) ^ j \<le> 2 ^ (bitlen n - 1)" by (rule power_increasing) simp
  ultimately have "2 ^ j \<le> n" by (rule order_trans [rotated])
  with n show False by simp
qed

text \<open>The product of a random number and 100000, rounded, stays below 100000.\<close>

lemma times64_random:
  assumes "is_random x"
  shows "mant (times64 x 100000) < 100000 * 2 ^ frac_bits (times64 x 100000)"
proof -
  define m k p s where "m = mant x" and "k = frac_bits x" and "p = m * 100000"
    and "s = bitlen p - 53"
  from assms have m53: "m < 2 ^ 53" and mk: "m < 2 ^ k"
    by (simp_all add: is_random_def m_def k_def)
  from mk have pk: "p + 100000 \<le> 100000 * 2 ^ k" by (simp add: p_def)
  show ?thesis
  proof (cases "s = 0")
    case True
    then have "times64 x 100000 = \<lparr>mant = p, frac_bits = k\<rparr>"
      by (simp add: times64_def Let_def m_def k_def p_def s_def)
    with pk show ?thesis by simp
  next
    case False
    define q r h where "q = p div 2 ^ s" and "r = p mod 2 ^ s" and "h = (2::nat) ^ (s - 1)"
    from False have len: "bitlen p = 53 + s" and sp: "0 < s" by (simp_all add: s_def)
    have "p < 100000 * 2 ^ 53" using m53 by (simp add: p_def)
    also have "\<dots> < 2 ^ 70" by simp
    finally have "bitlen p \<le> 70" by (rule bitlen_le)
    with len have s17: "s \<le> 17" by simp
    then have "h \<le> 2 ^ 16" unfolding h_def by (intro power_increasing) simp_all
    then have h: "h < 100000" by simp
    have hh: "2 ^ s = 2 * h" using sp by (cases s) (simp_all add: h_def)
    have "0 < p" using len by (cases "p = 0") simp_all
    from bitlen_lower [OF this] len have low: "2 ^ (52 + s) \<le> p" by simp
    have "p < 2 ^ 17 * 2 ^ k" using pk by simp
    with low have "(2::nat) ^ (52 + s) < 2 ^ (17 + k)" by (simp add: power_add)
    then have "52 + s < 17 + k" by simp
    then have sk: "s \<le> k" by simp
    have split: "2 ^ k = 2 ^ (k - s) * (2::nat) ^ s"
      using sk by (simp add: power_add [symmetric])
    have pq: "p = q * 2 ^ s + r" unfolding q_def r_def by (rule div_mult_mod_eq [symmetric])
    define up where "up \<longleftrightarrow> h < r \<or> (r = h \<and> odd q)"
    define M where "M = (if up then q + 1 else q)"
    have t: "times64 x 100000 = \<lparr>mant = M, frac_bits = k - s\<rparr>"
      using False
      by (simp add: times64_def Let_def m_def k_def p_def s_def q_def r_def h_def M_def up_def)
    have "M * 2 ^ s < 100000 * 2 ^ k"
    proof (cases up)
      case True
      then have "h \<le> r" by (auto simp: up_def)
      then have "(q + 1) * 2 ^ s \<le> p + h" using pq hh by (simp add: algebra_simps)
      with h pk True show ?thesis by (simp add: M_def)
    next
      case False
      have "q * 2 ^ s \<le> p" using pq by simp
      with pk False show ?thesis by (simp add: M_def)
    qed
    then have "M * 2 ^ s < (100000 * 2 ^ (k - s)) * 2 ^ s"
      by (simp add: split)
    then have "M < 100000 * 2 ^ (k - s)"
      by (rule mult_less_cancel2 [THEN iffD1, THEN conjunct2])
    with t show ?thesis by simp
  qed
qed

lemma trunc_random:
  assumes "is_random x"
  shows "0 \<le> Math_trunc (times64 x 100000) \<and> Math_trunc (times64 x 100000) \<le> 99999"
proof -
  let ?y = "times64 x 100000"
  from times64_random [OF assms] have "mant ?y div 2 ^ frac_bits ?y < 100000"
    by (simp add: less_mult_imp_div_less)
  then show ?thesis by (simp add: Math_trunc_def)
qed

text \<open>
  Claim C10. A press of the button calls \<^verbatim>\<open>Math.random\<close> twice. The result of the first
  call, times 100000 in binary64 and truncated, is a number from 0 to 99999 and goes into
  the title; the result of the second call, treated alike, is the id. The id does not
  depend on the first call nor the title on the second, and the title names the id
  exactly when the two numbers happen to be equal.
\<close>

theorem onClick_two_draws:
  assumes "is_random r1" and "is_random r2"
  shows "post_id (onClick_newPost r1 r2) = Math_trunc (times64 r2 100000)
         \<and> 0 \<le> post_id (onClick_newPost r1 r2) \<and> post_id (onClick_newPost r1 r2) \<le> 99999
         \<and> title (onClick_newPost r1 r2)
             = ascii ''hello '' @ show_int (Math_trunc (times64 r1 100000))
         \<and> 0 \<le> Math_trunc (times64 r1 100000) \<and> Math_trunc (times64 r1 100000) \<le> 99999
         \<and> body (onClick_newPost r1 r2) = ascii ''yoo''
         \<and> (title (onClick_newPost r1 r2)
               = ascii ''hello '' @ show_int (post_id (onClick_newPost r1 r2)))
             = (Math_trunc (times64 r1 100000) = Math_trunc (times64 r2 100000))"
proof -
  note t1 = trunc_random [OF assms(1)] and t2 = trunc_random [OF assms(2)]
  have "(show_int (Math_trunc (times64 r1 100000)) = show_int (Math_trunc (times64 r2 100000)))
      = (Math_trunc (times64 r1 100000) = Math_trunc (times64 r2 100000))"
    by (auto dest: show_int_inj)
  with t1 t2 show ?thesis
    by (simp add: onClick_newPost_def Let_def)
qed

text \<open>
  The first call gives 1/4 and the second the binary64 number nearest to 0.00827: the
  title is \<^verbatim>\<open>hello 25000\<close> and the id is 827, the product being rounded up to 827
  where the product of the reals stays below it.
\<close>

theorem onClick_two_draws_witness:
  "is_random \<lparr>mant = 1, frac_bits = 2\<rparr>
   \<and> is_random \<lparr>mant = 37244768918354, frac_bits = 52\<rparr>
   \<and> onClick_newPost \<lparr>mant = 1, frac_bits = 2\<rparr> \<lparr>mant = 37244768918354, frac_bits = 52\<rparr>
       = \<lparr>post_id = 827, title = ascii ''hello 25000'', body = ascii ''yoo''\<rparr>
   \<and> title (onClick_newPost \<lparr>mant = 1, frac_bits = 2\<rparr> \<lparr>mant = 37244768918354, frac_bits = 52\<rparr>)
       \<noteq> ascii ''hello '' @ show_int (post_id
             (onClick_newPost \<lparr>mant = 1, frac_bits = 2\<rparr> \<lparr>mant = 37244768918354, frac_bits = 52\<rparr>))"
proof -
  let ?r1 = "\<lparr>mant = 1, frac_bits = 2\<rparr>" and ?r2 = "\<lparr>mant = 37244768918354, frac_bits = 52\<rparr>"
  have i1: "is_random ?r1" and i2: "is_random ?r2" by (simp_all add: is_random_def)
  have b1: "bitlen 100000 = 17" and b2: "bitlen 3724476891835400000 = 62"
    by (simp_all add: bitlen_pos)
  have t1: "Math_trunc (times64 ?r1 100000) = 25000"
    by (simp add: Math_trunc_def times64_def b1 Let_def)
  have t2: "Math_trunc (times64 ?r2 100000) = 827"
    by (simp add: Math_trunc_def times64_def b2 Let_def)
  have s: "show_int 25000 = ascii ''25000''"
    by (simp add: show_int_def show_nat.simps digit_char_def ascii_simps)
  from onClick_two_draws [OF i1 i2] show ?thesis
    using i1 i2 t1 t2 s by (simp add: onClick_newPost_def Let_def ascii_simps)
qed

end
